theory Spec2Isabelle
  imports Main "HOL-Library.Char_ord" "HOL-Library.List_Lexorder" "HOL-Library.Multiset"
    "HOL-Library.Sublist"
begin

section \<open>Strings and character classes\<close>

text \<open>
  A Python \<open>str\<close> is modelled as a \<open>string\<close>; a \<open>char\<close> stands for the code point
  of the same number (0 to 255, the Latin-1 range, which holds every character of a URL
  or a DOI). The character classes below are those of Python's \<open>re\<close> module on \<open>str\<close>
  patterns, restricted to that range.
\<close>

definition code :: "char \<Rightarrow> nat" where
  "code c = of_char c"

text \<open>\<open>\d\<close>: the decimal digits; in the range only \<open>0\<close> to \<open>9\<close>.\<close>

definition re_digit :: "char \<Rightarrow> bool" where
  "re_digit c = (48 \<le> code c \<and> code c \<le> 57)"

text \<open>\<open>\s\<close>: tab to carriage return, the separators 28 to 31, space, NEL and NBSP.\<close>

definition re_space :: "char \<Rightarrow> bool" where
  "re_space c = ((9 \<le> code c \<and> code c \<le> 13) \<or> (28 \<le> code c \<and> code c \<le> 32)
     \<or> code c = 133 \<or> code c = 160)"

text \<open>\<open>\w\<close>: the alphanumeric characters and the underscore.\<close>

definition re_word :: "char \<Rightarrow> bool" where
  "re_word c = (let n = code c in
     (48 \<le> n \<and> n \<le> 57) \<or> (65 \<le> n \<and> n \<le> 90) \<or> n = 95 \<or> (97 \<le> n \<and> n \<le> 122)
     \<or> n = 170 \<or> n = 178 \<or> n = 179 \<or> n = 181 \<or> n = 185 \<or> n = 186
     \<or> (188 \<le> n \<and> n \<le> 190) \<or> (192 \<le> n \<and> n \<le> 214) \<or> (216 \<le> n \<and> n \<le> 246)
     \<or> 248 \<le> n)"

text \<open>\<open>str.lower\<close>, one character at a time: \<open>A\<close> to \<open>Z\<close> and the accented capitals.\<close>

definition lower_char :: "char \<Rightarrow> char" where
  "lower_char c = (let n = code c in
     if (65 \<le> n \<and> n \<le> 90) \<or> (192 \<le> n \<and> n \<le> 222 \<and> n \<noteq> 215) then char_of (n + 32) else c)"

definition lower :: "string \<Rightarrow> string" where
  "lower s = map lower_char s"

text \<open>\<open>s.rstrip("/")\<close>: every trailing slash goes.\<close>

definition rstrip_slash :: "string \<Rightarrow> string" where
  "rstrip_slash s = rev (dropWhile (\<lambda>c. c = CHR ''/'') (rev s))"

section \<open>DOI normalisation\<close>

text \<open>
  The pattern \<open>v\d+$\<close> tried at the head of a string: a \<open>v\<close>, then the longest run of
  digits, which must be non-empty and reach the end of the string or the line feed
  that ends it (Python's \<open>$\<close> also matches just before a final line feed).
\<close>

definition version_match :: "string \<Rightarrow> bool" where
  "version_match s = (case s of
       [] \<Rightarrow> False
     | c # cs \<Rightarrow> c = CHR ''v'' \<and> takeWhile re_digit cs \<noteq> []
         \<and> (dropWhile re_digit cs = [] \<or> dropWhile re_digit cs = [CHR 0x0A]))"

text \<open>
  \<open>re.sub(r"v\d+$", "", s)\<close>: the scan goes left to right; at the first position where
  the pattern matches, the match is removed and what follows it (nothing, or the final
  line feed) is kept.
\<close>

fun sub_version :: "string \<Rightarrow> string" where
  "sub_version [] = []"
| "sub_version (c # cs) =
     (if version_match (c # cs) then dropWhile re_digit cs else c # sub_version cs)"

definition normalize_doi :: "string \<Rightarrow> string" where
  "normalize_doi doi = sub_version (rstrip_slash (lower doi))"

text \<open>The pattern matches at one of the positions of the string: \<open>re.sub\<close> finds a match.\<close>

fun version_pattern_found :: "string \<Rightarrow> bool" where
  "version_pattern_found [] = False"
| "version_pattern_found (c # cs) = (version_match (c # cs) \<or> version_pattern_found cs)"

definition ends_with_slash :: "string \<Rightarrow> bool" where
  "ends_with_slash s = (s \<noteq> [] \<and> last s = CHR ''/'')"

text \<open>The string ends in a version suffix: a \<open>v\<close> and then digits, at least one, up to its end.\<close>

definition ends_with_version :: "string \<Rightarrow> bool" where
  "ends_with_version s = (\<exists>p ds. s = p @ CHR ''v'' # ds \<and> ds \<noteq> []
     \<and> (\<forall>c \<in> set ds. re_digit c))"

section \<open>DOI extraction\<close>

text \<open>The class \<open>[^\s,;]\<close> of the DOI pattern.\<close>

definition doi_char :: "char \<Rightarrow> bool" where
  "doi_char c = (\<not> re_space c \<and> c \<noteq> CHR '','' \<and> c \<noteq> CHR '';'')"

text \<open>The class \<open>[\w.-]\<close> of the Nature pattern and \<open>[\d.]\<close> of the arXiv pattern.\<close>

definition nature_char :: "char \<Rightarrow> bool" where
  "nature_char c = (re_word c \<or> c = CHR ''.'' \<or> c = CHR ''-'')"

definition arxiv_char :: "char \<Rightarrow> bool" where
  "arxiv_char c = (re_digit c \<or> c = CHR ''.'')"

text \<open>A literal piece of a pattern at the head of the text: what follows it, if it is there.\<close>

fun literal_at :: "string \<Rightarrow> string \<Rightarrow> string option" where
  "literal_at [] s = Some s"
| "literal_at (p # ps) [] = None"
| "literal_at (p # ps) (c # cs) = (if p = c then literal_at ps cs else None)"

text \<open>
  The pattern \<open>(10\.\d{4,9}/[^\s,;]+)\<close> tried at the head of the text: the matched text
  and what follows the match. Both repetitions are greedy, and giving back a character
  never helps: after fewer digits the next character is a digit, not the slash. So the whole
  run of digits must have 4 to 9 characters and the slash must follow it.
\<close>

definition match_doi :: "string \<Rightarrow> (string \<times> string) option" where
  "match_doi s = (case literal_at ''10.'' s of
       None \<Rightarrow> None
     | Some r \<Rightarrow>
         let ds = takeWhile re_digit r in
         if 4 \<le> length ds \<and> length ds \<le> 9 then
           (case dropWhile re_digit r of
              [] \<Rightarrow> None
            | c # r' \<Rightarrow>
                if c = CHR ''/'' \<and> takeWhile doi_char r' \<noteq> []
                then Some (''10.'' @ ds @ ''/'' @ takeWhile doi_char r', dropWhile doi_char r')
                else None)
         else None)"

lemma match_doi_shorter: "match_doi s = Some (m, rest) \<Longrightarrow> length rest < length s"
proof -
  assume a: "match_doi s = Some (m, rest)"
  have lit: "literal_at p t = Some r \<Longrightarrow> length r \<le> length t" for p t r
    by (induction p t rule: literal_at.induct) (auto split: if_splits)
  from a obtain r c r' where r: "literal_at ''10.'' s = Some r"
    and d: "dropWhile re_digit r = c # r'" and rest: "rest = dropWhile doi_char r'"
    by (auto simp: match_doi_def Let_def split: option.splits list.splits if_splits)
  have "length rest \<le> length r'" using rest by (simp add: length_dropWhile_le)
  moreover have "length (c # r') \<le> length r" using d length_dropWhile_le [of re_digit r] by simp
  moreover have "length r \<le> length s" using r by (rule lit)
  ultimately show ?thesis by simp
qed

text \<open>
  \<open>re.finditer\<close>: the matches from left to right, none overlapping another: after a match
  the scan goes on where the match ended, and where there is none it moves on one character.
\<close>

function finditer_doi :: "string \<Rightarrow> string list" where
  "finditer_doi [] = []"
| "finditer_doi (c # cs) = (case match_doi (c # cs) of
       Some (m, rest) \<Rightarrow> m # finditer_doi rest
     | None \<Rightarrow> finditer_doi cs)"
  by pat_completeness auto
termination
  by (relation "measure length") (auto dest: match_doi_shorter)

text \<open>
  \<open>s.split("/")\<close> and \<open>"/".join(parts)\<close>. A split has at least one part, so the last
  case of \<open>split_slash\<close> is never taken.
\<close>

fun split_slash :: "string \<Rightarrow> string list" where
  "split_slash [] = ['''']"
| "split_slash (c # cs) =
     (if c = CHR ''/'' then [] # split_slash cs
      else (case split_slash cs of p # ps \<Rightarrow> (c # p) # ps | [] \<Rightarrow> [c # '''']))"

fun join_slash :: "string list \<Rightarrow> string" where
  "join_slash [] = []"
| "join_slash [p] = p"
| "join_slash (p # q # ps) = p @ ''/'' @ join_slash (q # ps)"

text \<open>
  What one match adds to the set: its normal form, and the shorter versions
  \<open>"/".join(parts[:i])\<close> for \<open>i\<close> in \<open>range(2, len(parts))\<close>.
\<close>

definition doi_candidates :: "string \<Rightarrow> string list" where
  "doi_candidates raw =
     (let normalized = normalize_doi raw; parts = split_slash normalized
      in normalized # map (\<lambda>i. join_slash (take i parts)) [2..<length parts])"

text \<open>\<open>re.search\<close>: the first position, from the left, where the pattern matches.\<close>

fun search :: "(string \<Rightarrow> 'a option) \<Rightarrow> string \<Rightarrow> 'a option" where
  "search f [] = f []"
| "search f (c # cs) = (case f (c # cs) of Some g \<Rightarrow> Some g | None \<Rightarrow> search f cs)"

text \<open>
  \<open>nature\.com/articles/(s[\w.-]+)\<close> and \<open>arxiv\.org/abs/([\d.]+)\<close> at the head of the
  text: group 1 of the match.
\<close>

definition match_nature :: "string \<Rightarrow> string option" where
  "match_nature s = (case literal_at ''nature.com/articles/s'' s of
       None \<Rightarrow> None
     | Some r \<Rightarrow> if takeWhile nature_char r = [] then None
                 else Some (''s'' @ takeWhile nature_char r))"

definition match_arxiv :: "string \<Rightarrow> string option" where
  "match_arxiv s = (case literal_at ''arxiv.org/abs/'' s of
       None \<Rightarrow> None
     | Some r \<Rightarrow> if takeWhile arxiv_char r = [] then None
                 else Some (takeWhile arxiv_char r))"

definition extract_dois :: "string \<Rightarrow> string set" where
  "extract_dois url =
     (if url = [] then {}
      else set (concat (map doi_candidates (finditer_doi url)))
        \<union> (case search match_nature url of
             Some g \<Rightarrow> {normalize_doi (''10.1038/'' @ g)} | None \<Rightarrow> {})
        \<union> (case search match_arxiv url of
             Some g \<Rightarrow> {''10.48550/arxiv.'' @ g} | None \<Rightarrow> {}))"

definition doi_overlap :: "string set \<Rightarrow> string set \<Rightarrow> bool" where
  "doi_overlap dois_a dois_b = (dois_a \<inter> dois_b \<noteq> {})"

section \<open>News items and the merge\<close>

text \<open>
  A news item is a dictionary with string values. A field is \<open>None\<close> when the key is
  absent; for the URL also when its value is null, which every reader of the URL treats as
  absent. The date and the text of an item are strings when present (the input contract of
  the merge).
\<close>

record news_item =
  n_date :: "string option"
  n_text :: "string option"
  n_url :: "string option"
  n_link_text :: "string option"
  n_source :: "string option"
  n_paper_id :: "string option"

text \<open>\<open>item.get("url", "")\<close> and \<open>x.get("date", "")\<close>.\<close>

definition get_url :: "news_item \<Rightarrow> string" where
  "get_url item = (case n_url item of None \<Rightarrow> [] | Some u \<Rightarrow> u)"

definition get_date :: "news_item \<Rightarrow> string" where
  "get_date item = (case n_date item of None \<Rightarrow> [] | Some d \<Rightarrow> d)"

record merge_state =
  existing_urls :: "string set"
  existing_dois :: "string set"
  merged :: "news_item list"
  new_count :: nat

text \<open>The body of the first loop, over the manual items.\<close>

definition seed_manual :: "merge_state \<Rightarrow> news_item \<Rightarrow> merge_state" where
  "seed_manual st item =
     (let url = get_url item in
      if url \<noteq> [] then
        st\<lparr>existing_urls := insert (rstrip_slash url) (existing_urls st),
           existing_dois := existing_dois st \<union> extract_dois url\<rparr>
      else st)"

text \<open>The body of the second loop, over the auto items; each \<open>continue\<close> leaves the state.\<close>

definition merge_auto :: "merge_state \<Rightarrow> news_item \<Rightarrow> merge_state" where
  "merge_auto st item =
     (let url = get_url item in
      if url = [] then st
      else
        let normalized = rstrip_slash url; item_dois = extract_dois url in
        if normalized \<in> existing_urls st then st
        else if doi_overlap item_dois (existing_dois st) then st
        else st\<lparr>merged := merged st @ [item],
               existing_urls := insert normalized (existing_urls st),
               existing_dois := existing_dois st \<union> item_dois,
               new_count := Suc (new_count st)\<rparr>)"

definition merge_loop :: "news_item list \<Rightarrow> news_item list \<Rightarrow> merge_state" where
  "merge_loop manual auto =
     foldl merge_auto
       ((foldl seed_manual
           \<lparr>existing_urls = {}, existing_dois = {}, merged = [], new_count = 0\<rparr> manual)
         \<lparr>merged := manual\<rparr>)
       auto"

text \<open>
  \<open>merged.sort(key=lambda x: x.get("date", ""), reverse=True)\<close>. Python's sort is stable,
  and with \<open>reverse=True\<close> it reverses the list, sorts it upwards and reverses the result,
  which keeps the order of equal keys. Strings compare by code point, a prefix first.
\<close>

definition sort_by_date_desc :: "news_item list \<Rightarrow> news_item list" where
  "sort_by_date_desc xs = rev (sort_key get_date (rev xs))"

definition merge_news :: "news_item list \<Rightarrow> news_item list \<Rightarrow> news_item list" where
  "merge_news manual auto = sort_by_date_desc (merged (merge_loop manual auto))"

text \<open>The auto items that the loop appended, in the order it appended them.\<close>

definition accepted :: "news_item list \<Rightarrow> news_item list \<Rightarrow> news_item list" where
  "accepted manual auto = drop (length manual) (merged (merge_loop manual auto))"

text \<open>\<open>str(n)\<close> for a natural number: its decimal digits.\<close>

fun str_nat :: "nat \<Rightarrow> string" where
  "str_nat n = (if n < 10 then [char_of (48 + n)]
     else str_nat (n div 10) @ [char_of (48 + n mod 10)])"

declare str_nat.simps [simp del]

text \<open>\<open>str(i)\<close> for a Python integer, as the f-strings print it.\<close>

definition str_int :: "int \<Rightarrow> string" where
  "str_int i = (if i < 0 then CHR ''-'' # str_nat (nat (- i)) else str_nat (nat i))"

text \<open>What \<open>merge_news\<close> prints: the number of auto items it appended, when there are any.\<close>

definition merge_news_printed :: "news_item list \<Rightarrow> news_item list \<Rightarrow> string list" where
  "merge_news_printed manual auto =
     (let n = new_count (merge_loop manual auto) in
      if 0 < n then [''Found '' @ str_nat n @ '' new publication(s) from Semantic Scholar'']
      else [])"

text \<open>
  Two items are duplicates of each other when both have a URL and the URLs are equal once
  their trailing slashes are trimmed, or when their DOI sets intersect.
\<close>

definition same_url :: "news_item \<Rightarrow> news_item \<Rightarrow> bool" where
  "same_url a b = (get_url a \<noteq> [] \<and> get_url b \<noteq> []
     \<and> rstrip_slash (get_url a) = rstrip_slash (get_url b))"

definition duplicates :: "news_item \<Rightarrow> news_item \<Rightarrow> bool" where
  "duplicates a b = (same_url a b
     \<or> doi_overlap (extract_dois (get_url a)) (extract_dois (get_url b)))"

text \<open>No two items of the list, at different places, are duplicates of each other.\<close>

definition duplicate_free :: "news_item list \<Rightarrow> bool" where
  "duplicate_free xs = sorted_wrt (\<lambda>a b. \<not> duplicates a b) xs"

text \<open>The tracking sets cover every item of the result so far: the invariant of the loop.\<close>

definition tracked :: "merge_state \<Rightarrow> bool" where
  "tracked st = (\<forall>x \<in> set (merged st).
      (get_url x \<noteq> [] \<longrightarrow> rstrip_slash (get_url x) \<in> existing_urls st)
      \<and> extract_dois (get_url x) \<subseteq> existing_dois st)"

text \<open>
  The DOI pattern as the specification words it: \<open>10.\<close>, 4 to 9 digits, a slash and a
  non-empty run of characters that are neither white space, comma nor semicolon; and a text
  that has such a piece somewhere.
\<close>

definition doi_like :: "string \<Rightarrow> bool" where
  "doi_like t = (\<exists>ds body. t = ''10.'' @ ds @ ''/'' @ body
      \<and> 4 \<le> length ds \<and> length ds \<le> 9 \<and> (\<forall>c \<in> set ds. re_digit c)
      \<and> body \<noteq> [] \<and> (\<forall>c \<in> set body. doi_char c))"

definition contains_doi_like :: "string \<Rightarrow> bool" where
  "contains_doi_like url = (\<exists>pre t post. url = pre @ t @ post \<and> doi_like t)"

text \<open>Sample items: the end-to-end example of the specification.\<close>

definition item_manual :: news_item where
  "item_manual = \<lparr>n_date = Some ''2024-01-01'', n_text = Some ''Manual entry'',
     n_url = Some ''https://doi.org/10.1/abc'', n_link_text = None, n_source = None,
     n_paper_id = None\<rparr>"

definition item_same :: news_item where
  "item_same = \<lparr>n_date = Some ''2024-01-01'', n_text = Some ''Found again'',
     n_url = Some ''https://doi.org/10.1/abc'', n_link_text = None,
     n_source = Some ''semantic_scholar'', n_paper_id = Some ''p1''\<rparr>"

definition item_new :: news_item where
  "item_new = \<lparr>n_date = Some ''2023-06-01'', n_text = Some ''New paper'',
     n_url = Some ''https://x.org/new'', n_link_text = None,
     n_source = Some ''semantic_scholar'', n_paper_id = Some ''p2''\<rparr>"

section \<open>The record mapper\<close>

text \<open>
  A field of a JSON object: the key is absent, its value is null, or it has a value of
  the expected type.
\<close>

datatype 'a field = Absent | Null | Val 'a

record ext_ids =
  DOI :: "string field"
  ArXiv :: "string field"

record raw_paper =
  title :: "string field"
  publicationDate :: "string field"
  year :: "int field"
  externalIds :: "ext_ids field"
  paper_url :: "string field"
  venue :: "string field"
  paperId :: "string field"

datatype py_error = AttributeError

text \<open>\<open>s.strip()\<close>: white space goes from both ends.\<close>

definition strip :: "string \<Rightarrow> string" where
  "strip s = rev (dropWhile re_space (rev (dropWhile re_space s)))"

text \<open>
  \<open>d.get(key)\<close> read as a condition: a string counts when it is there and not empty, a
  number when it is there and not zero.
\<close>

definition truthy_str :: "string field \<Rightarrow> string option" where
  "truthy_str f = (case f of Val s \<Rightarrow> if s = [] then None else Some s | _ \<Rightarrow> None)"

definition truthy_int :: "int field \<Rightarrow> int option" where
  "truthy_int f = (case f of Val i \<Rightarrow> if i = 0 then None else Some i | _ \<Rightarrow> None)"

text \<open>\<open>paper.get("externalIds", {}) or {}\<close>: absent, null and empty all read as empty.\<close>

definition get_ext_ids :: "raw_paper \<Rightarrow> ext_ids" where
  "get_ext_ids paper = (case externalIds paper of
       Val e \<Rightarrow> e | _ \<Rightarrow> \<lparr>DOI = Absent, ArXiv = Absent\<rparr>)"

definition field_value :: "'a field \<Rightarrow> 'a option" where
  "field_value f = (case f of Val v \<Rightarrow> Some v | _ \<Rightarrow> None)"

definition best_url :: "raw_paper \<Rightarrow> string option" where
  "best_url paper =
     (let ext = get_ext_ids paper in
      case truthy_str (DOI ext) of
        Some doi \<Rightarrow> Some (''https://doi.org/'' @ doi)
      | None \<Rightarrow>
         (case truthy_str (ArXiv ext) of
            Some arxiv \<Rightarrow> Some (''https://arxiv.org/abs/'' @ arxiv)
          | None \<Rightarrow> field_value (paper_url paper)))"

definition date_str :: "raw_paper \<Rightarrow> string option" where
  "date_str paper =
     (case truthy_str (publicationDate paper) of
        Some pub_date \<Rightarrow> Some pub_date
      | None \<Rightarrow>
         (case truthy_int (year paper) of
            Some y \<Rightarrow> Some (str_int y @ ''-01-01'')
          | None \<Rightarrow> None))"

definition news_text :: "string \<Rightarrow> raw_paper \<Rightarrow> string" where
  "news_text t paper =
     (case truthy_str (venue paper) of
        Some v \<Rightarrow> ''Our paper '' @ [CHR 0x22] @ t @ [CHR 0x22] @ '' published in '' @ v
      | None \<Rightarrow> ''Our paper '' @ [CHR 0x22] @ t @ [CHR 0x22] @ '' is available'')"

text \<open>
  \<open>paper.get("title", "").strip()\<close> reads an absent title as the empty string; a null
  title is \<open>None\<close>, which has no \<open>strip\<close>: the call raises.
\<close>

definition paper_to_news_item :: "raw_paper \<Rightarrow> py_error + news_item option" where
  "paper_to_news_item paper =
     (case title paper of
        Null \<Rightarrow> Inl AttributeError
      | f \<Rightarrow>
         let t = strip (case f of Val s \<Rightarrow> s | _ \<Rightarrow> []) in
         if t = [] then Inr None
         else
           (case date_str paper of
              None \<Rightarrow> Inr None
            | Some d \<Rightarrow>
                Inr (Some \<lparr>n_date = Some d, n_text = Some (news_text t paper),
                  n_url = best_url paper, n_link_text = None,
                  n_source = Some ''semantic_scholar'',
                  n_paper_id = field_value (paperId paper)\<rparr>)))"

text \<open>What the specification calls a usable title and a usable date or year.\<close>

definition usable_title :: "raw_paper \<Rightarrow> bool" where
  "usable_title paper = (case title paper of Val s \<Rightarrow> strip s \<noteq> [] | _ \<Rightarrow> False)"

definition has_date :: "raw_paper \<Rightarrow> bool" where
  "has_date paper = (case publicationDate paper of Val s \<Rightarrow> s \<noteq> [] | _ \<Rightarrow> False)"

definition has_year :: "raw_paper \<Rightarrow> bool" where
  "has_year paper = (case year paper of Val y \<Rightarrow> y \<noteq> 0 | _ \<Rightarrow> False)"

definition paper_null_title :: raw_paper where
  "paper_null_title = \<lparr>title = Null, publicationDate = Val ''2024-03-05'', year = Val 2024,
     externalIds = Null, paper_url = Absent, venue = Absent, paperId = Val ''p1''\<rparr>"

definition paper_year_only :: raw_paper where
  "paper_year_only = \<lparr>title = Val '' A title '', publicationDate = Null, year = Val 2024,
     externalIds = Null, paper_url = Absent, venue = Absent, paperId = Val ''p1''\<rparr>"

section \<open>The renderer\<close>

text \<open>\<open>"\n".join(lines)\<close>.\<close>

fun join_lines :: "string list \<Rightarrow> string" where
  "join_lines [] = []"
| "join_lines [l] = l"
| "join_lines (l # k # ls) = l @ [CHR 0x0A] @ join_lines (k # ls)"

definition get_text :: "news_item \<Rightarrow> string" where
  "get_text item = (case n_text item of None \<Rightarrow> [] | Some t \<Rightarrow> t)"

definition get_link_text :: "news_item \<Rightarrow> string" where
  "get_link_text item = (case n_link_text item of None \<Rightarrow> ''here'' | Some l \<Rightarrow> l)"

text \<open>The list entry of one item: with the link when the item has a non-empty URL.\<close>

definition render_item :: "news_item \<Rightarrow> string" where
  \<open>render_item item =
     (let date = get_date item; text = get_text item; url = get_url item;
          link_text = get_link_text item
      in if url \<noteq> [] then
           (let link = '' <a href="'' @ url @ ''"> '' @ link_text @ '' </a>.''
            in ''                        <li>'' @ [CHR 0x0A]
               @ ''                            <strong>'' @ date @ ''</strong> - '' @ text @ link
               @ [CHR 0x0A] @ ''                        </li>'')
         else ''                        <li>'' @ [CHR 0x0A]
               @ ''                            <strong>'' @ date @ ''</strong> - '' @ text
               @ [CHR 0x0A] @ ''                        </li>'')\<close>

definition render_news_html :: "news_item list \<Rightarrow> string" where
  \<open>render_news_html items = join_lines
     ([''                <!-- NEWS_START -->'',
       ''                <div class="news">'',
       ''                    <h2>News</h2>'',
       ''                    <ul>'']
      @ map render_item items
      @ [''                    </ul>'',
         ''                </div>'',
         ''                <!-- NEWS_END -->''])\<close>

text \<open>The first and the last line of a text whose lines are separated by line feeds.\<close>

definition first_line :: "string \<Rightarrow> string" where
  "first_line s = takeWhile (\<lambda>c. c \<noteq> CHR 0x0A) s"

definition last_line :: "string \<Rightarrow> string" where
  "last_line s = rev (takeWhile (\<lambda>c. c \<noteq> CHR 0x0A) (rev s))"

section \<open>The patcher\<close>

definition MARKER_START :: string where
  "MARKER_START = ''<!-- NEWS_START -->''"

definition MARKER_END :: string where
  "MARKER_END = ''<!-- NEWS_END -->''"

text \<open>The first place where a literal text occurs: what is before it and what is after it.\<close>

fun find_literal :: "string \<Rightarrow> string \<Rightarrow> (string \<times> string) option" where
  "find_literal p [] = (case literal_at p [] of Some r \<Rightarrow> Some ([], r) | None \<Rightarrow> None)"
| "find_literal p (c # cs) = (case literal_at p (c # cs) of
       Some r \<Rightarrow> Some ([], r)
     | None \<Rightarrow> (case find_literal p cs of Some (a, b) \<Rightarrow> Some (c # a, b) | None \<Rightarrow> None))"

text \<open>
  \<open>pattern.search(content)\<close> for the start marker, \<open>.*?\<close> with \<open>DOTALL\<close>, and the end
  marker: the match starts at the first start marker that has an end marker after it, which
  is the first start marker if any is, and it ends with the first end marker after that start
  marker. The result is the text before the match, the match and the text after it.
\<close>

definition search_span :: "string \<Rightarrow> (string \<times> string \<times> string) option" where
  "search_span content = (case find_literal MARKER_START content of
       None \<Rightarrow> None
     | Some (pre, r) \<Rightarrow>
         (case find_literal MARKER_END r of
            None \<Rightarrow> None
          | Some (mid, post) \<Rightarrow> Some (pre, MARKER_START @ mid @ MARKER_END, post)))"

text \<open>
  The replacement text of \<open>pattern.sub\<close> is a template: the \<open>re\<close> module (of Python 3.12)
  reads its backslash escapes before it inserts it. A template is parsed to pieces: literal
  text, and references to group 0, the whole match. The pattern has no other group.
\<close>

datatype piece = Literal string | WholeMatch

definition oct_digit :: "char \<Rightarrow> bool" where
  "oct_digit c = (48 \<le> code c \<and> code c \<le> 55)"

definition ascii_letter :: "char \<Rightarrow> bool" where
  "ascii_letter c = ((65 \<le> code c \<and> code c \<le> 90) \<or> (97 \<le> code c \<and> code c \<le> 122))"

text \<open>\<open>int(s, 8)\<close> for a string of octal digits.\<close>

definition oct_val :: "string \<Rightarrow> nat" where
  "oct_val s = foldl (\<lambda>a c. 8 * a + (code c - 48)) 0 s"

text \<open>The control escapes (a, b, f, n, r, t, v and the backslash) and the characters they stand for.\<close>

definition control_escape :: "char \<Rightarrow> char option" where
  "control_escape c =
     (if c = CHR ''a'' then Some (CHR 0x07) else if c = CHR ''b'' then Some (CHR 0x08)
      else if c = CHR ''f'' then Some (CHR 0x0C) else if c = CHR ''n'' then Some (CHR 0x0A)
      else if c = CHR ''r'' then Some (CHR 0x0D) else if c = CHR ''t'' then Some (CHR 0x09)
      else if c = CHR ''v'' then Some (CHR 0x0B) else if c = CHR 0x5C then Some (CHR 0x5C)
      else None)"

text \<open>
  What follows a backslash in the template: the piece it stands for and the rest of the
  template, or \<open>None\<close> where \<open>re\<close> raises an error.
  \<^item> The letter g, for a group: the name must stand between angle brackets and be there;
    a number must be 0, the only group; any other name is an error, as the pattern names no
    groups.
  \<^item> The digit 0 and up to two octal digits: the character of that code.
  \<^item> Another digit: three octal digits up to 377 are a character; everything else is a
    reference to a group that the pattern does not have.
  \<^item> A control escape; any other ASCII letter is an error; any other character stays as
    it is, with its backslash.
\<close>

definition escape :: "string \<Rightarrow> (piece \<times> string) option" where
  "escape s = (case s of
       [] \<Rightarrow> None
     | c # cs \<Rightarrow>
         if c = CHR ''g'' then
           (case cs of
              [] \<Rightarrow> None
            | l # r \<Rightarrow>
                let name = takeWhile (\<lambda>x. x \<noteq> CHR ''>'') r in
                if l = CHR ''<'' \<and> name \<noteq> [] \<and> length name < length r
                   \<and> list_all (\<lambda>x. x = CHR ''0'') name
                then Some (WholeMatch, drop (Suc (length name)) r)
                else None)
         else if c = CHR ''0'' then
           (let os = takeWhile oct_digit (take 2 cs)
            in Some (Literal [char_of (oct_val os mod 256)], drop (length os) cs))
         else if re_digit c then
           (case cs of
              d # e # r \<Rightarrow>
                if oct_digit c \<and> oct_digit d \<and> oct_digit e \<and> oct_val [c, d, e] \<le> 255
                then Some (Literal [char_of (oct_val [c, d, e])], r)
                else None
            | _ \<Rightarrow> None)
         else
           (case control_escape c of
              Some e \<Rightarrow> Some (Literal [e], cs)
            | None \<Rightarrow> if ascii_letter c then None else Some (Literal [CHR 0x5C, c], cs)))"

lemma escape_suffix:
  "escape s = Some (p, rest) \<Longrightarrow> \<exists>used. s = used @ rest \<and> used \<noteq> []"
proof -
  assume a: "escape s = Some (p, rest)"
  then obtain c cs where s: "s = c # cs" by (cases s) (auto simp: escape_def)
  have "suffix rest cs"
    using a unfolding s escape_def
    by (auto simp: Let_def split: list.splits if_splits option.splits
        intro: suffix_drop suffix_ConsI)
  then obtain u where "cs = u @ rest" by (auto simp: suffix_def)
  then have "s = (c # u) @ rest" by (simp add: s)
  then show ?thesis by blast
qed

lemma escape_shorter: "escape s = Some (p, rest) \<Longrightarrow> length rest < length s"
  using escape_suffix [of s p rest] by (cases "length rest < length s") auto

function parse_template :: "string \<Rightarrow> piece list option" where
  "parse_template [] = Some []"
| "parse_template (c # cs) =
     (if c = CHR 0x5C then
        (case escape cs of
           None \<Rightarrow> None
         | Some (p, rest) \<Rightarrow> map_option ((#) p) (parse_template rest))
      else map_option ((#) (Literal [c])) (parse_template cs))"
  by pat_completeness auto
termination
  by (relation "measure length") (auto dest: escape_shorter)

text \<open>\<open>match.expand\<close>: the pieces with the whole match in the place of each reference.\<close>

fun expand_template :: "piece list \<Rightarrow> string \<Rightarrow> string" where
  "expand_template [] m = []"
| "expand_template (Literal s # ps) m = s @ expand_template ps m"
| "expand_template (WholeMatch # ps) m = m @ expand_template ps m"

lemma literal_at_Some: "literal_at p s = Some r \<Longrightarrow> s = p @ r"
  by (induction p s rule: literal_at.induct) (auto split: if_splits)

lemma find_literal_Some: "find_literal p s = Some (a, b) \<Longrightarrow> s = a @ p @ b"
proof (induction s arbitrary: a)
  case Nil
  then show ?case by (auto split: option.splits dest: literal_at_Some)
next
  case (Cons c cs)
  then show ?case by (auto split: option.splits dest: literal_at_Some)
qed

lemma search_span_Some:
  "search_span content = Some (pre, m, post) \<Longrightarrow>
     content = pre @ m @ post \<and> (\<exists>mid. m = MARKER_START @ mid @ MARKER_END)"
  by (auto simp: search_span_def split: option.splits dest!: find_literal_Some)

lemma search_span_shorter:
  "search_span content = Some (pre, m, post) \<Longrightarrow> length post < length content"
  by (auto dest!: search_span_Some simp: MARKER_START_def)

text \<open>
  \<open>pattern.sub\<close>, once the template is parsed: every match, from left to right and none
  overlapping another, gives way to the expanded template; the text between the matches
  stays.
\<close>

function replace_spans :: "piece list \<Rightarrow> string \<Rightarrow> string" where
  "replace_spans ps content = (case search_span content of
       None \<Rightarrow> content
     | Some (pre, m, post) \<Rightarrow> pre @ expand_template ps m @ replace_spans ps post)"
  by pat_completeness auto
termination
  by (relation "measure (\<lambda>(ps, content). length content)") (auto dest: search_span_shorter)

declare replace_spans.simps [simp del]

text \<open>\<open>pattern.sub(news_html, content)\<close>: \<open>None\<close> where the template is in error.\<close>

definition re_sub :: "string \<Rightarrow> string \<Rightarrow> string option" where
  "re_sub repl content = map_option (\<lambda>ps. replace_spans ps content) (parse_template repl)"

text \<open>
  The patcher reads the file, whose content is the second argument. Its result: whether it
  returned, and what, or raised; the lines it printed; and the content it wrote to the
  file, \<open>None\<close> when it wrote nothing.
\<close>

datatype outcome = Returned bool | Raised

record patch_result =
  outcome :: outcome
  printed :: "string list"
  written :: "string option"

definition update_index_html :: "string \<Rightarrow> string \<Rightarrow> patch_result" where
  "update_index_html news_html content =
     (if search_span content = None then
        \<lparr>outcome = Returned False,
         printed = [''Error: Could not find NEWS_START/NEWS_END markers in index.html''],
         written = None\<rparr>
      else
        (case re_sub news_html content of
           None \<Rightarrow> \<lparr>outcome = Raised, printed = [], written = None\<rparr>
         | Some new_content \<Rightarrow>
             if new_content = content then
               \<lparr>outcome = Returned False, printed = [''No changes to index.html''],
                written = None\<rparr>
             else
               \<lparr>outcome = Returned True, printed = [''Updated index.html''],
                written = Some new_content\<rparr>))"

text \<open>The content of the file after the patcher ran.\<close>

definition file_after :: "string \<Rightarrow> patch_result \<Rightarrow> string" where
  "file_after content r = (case written r of None \<Rightarrow> content | Some c \<Rightarrow> c)"

text \<open>
  A document has a span when a start marker is in it and an end marker after that,
  as the specification words it.
\<close>

definition contains_span :: "string \<Rightarrow> bool" where
  "contains_span content =
     (\<exists>a b c. content = a @ MARKER_START @ b @ MARKER_END @ c)"

text \<open>Sample documents and fragments.\<close>

definition doc_without_markers :: string where
  "doc_without_markers = ''<html><body><!-- NEWS_START --></body></html>''"

definition doc_one_span :: string where
  "doc_one_span = ''<html><!-- NEWS_START -->old<!-- NEWS_END --></html>''"

definition fragment_old :: string where
  "fragment_old = ''<!-- NEWS_START -->old<!-- NEWS_END -->''"

definition fragment_new :: string where
  "fragment_new = ''<!-- NEWS_START -->new<!-- NEWS_END -->''"

definition fragment_delta :: string where
  "fragment_delta = ''<!-- NEWS_START -->'' @ [CHR 0x5C] @ ''delta<!-- NEWS_END -->''"

definition doc_two_spans :: string where
  "doc_two_spans = ''<!-- NEWS_START -->1<!-- NEWS_END -->,<!-- NEWS_START -->2<!-- NEWS_END -->''"

text \<open>The first and the last line of every rendered fragment.\<close>

definition start_line :: string where
  "start_line = replicate 16 CHR '' '' @ MARKER_START"

definition end_line :: string where
  "end_line = replicate 16 CHR '' '' @ MARKER_END"

section \<open>Properties of the DOI normaliser\<close>

lemma lower_char_idem: "lower_char (lower_char c) = lower_char c"
  by (auto simp: lower_char_def code_def Let_def)

lemma set_sub_version: "set (sub_version s) \<subseteq> set s"
  by (induction s) (auto dest: set_dropWhileD)

lemma length_sub_version: "length (sub_version s) \<le> length s"
proof (induction s)
  case Nil then show ?case by simp
next
  case (Cons c cs)
  have "length (dropWhile re_digit cs) \<le> length cs" by (rule length_dropWhile_le)
  with Cons show ?case by simp
qed

lemma sub_version_fix: "sub_version s = s \<longleftrightarrow> \<not> version_pattern_found s"
proof (induction s)
  case Nil then show ?case by simp
next
  case (Cons c cs)
  have "length (dropWhile re_digit cs) \<le> length cs" by (rule length_dropWhile_le)
  then have "dropWhile re_digit cs \<noteq> c # cs" by (metis impossible_Cons)
  with Cons show ?case by simp
qed

lemma length_rstrip_slash: "length (rstrip_slash s) \<le> length s"
  unfolding rstrip_slash_def by (metis length_dropWhile_le length_rev)

lemma set_rstrip_slash: "set (rstrip_slash s) \<subseteq> set s"
  unfolding rstrip_slash_def by (auto dest: set_dropWhileD)

lemma rstrip_slash_fix: "rstrip_slash s = s \<longleftrightarrow> \<not> ends_with_slash s"
proof (cases s rule: rev_cases)
  case Nil
  then show ?thesis by (simp add: rstrip_slash_def ends_with_slash_def)
next
  case (snoc ys y)
  show ?thesis
  proof (cases "y = CHR ''/''")
    case True
    have "length (rstrip_slash s) \<le> length ys"
      using snoc True length_dropWhile_le [of "\<lambda>c. c = CHR ''/''" "rev ys"]
      by (simp add: rstrip_slash_def)
    then have "rstrip_slash s \<noteq> s" using snoc by auto
    then show ?thesis using snoc True by (simp add: ends_with_slash_def)
  next
    case False
    then show ?thesis using snoc by (simp add: rstrip_slash_def ends_with_slash_def)
  qed
qed

lemma lower_normalized: "lower (normalize_doi x) = normalize_doi x"
proof -
  have "set (normalize_doi x) \<subseteq> set (lower x)"
    unfolding normalize_doi_def using set_sub_version set_rstrip_slash by blast
  then have "\<forall>c \<in> set (normalize_doi x). lower_char c = c"
    by (auto simp: lower_def lower_char_idem)
  then show ?thesis by (simp add: lower_def map_idI)
qed

text \<open>
  Claim C2, as stated: normalising twice is the same as normalising once, for every string.
  It fails where removing one version suffix uncovers another suffix or a slash.
\<close>

theorem normalize_doi_not_idempotent:
  "normalize_doi (normalize_doi ''10.1101/123456v1v2'') \<noteq> normalize_doi ''10.1101/123456v1v2''"
  by (simp add: normalize_doi_def lower_def lower_char_def code_def rstrip_slash_def
      version_match_def re_digit_def)

text \<open>
  A second normalisation changes nothing exactly when the first result has no trailing slash
  and the version pattern finds nothing in it.
\<close>

lemma normalize_doi_fixed_iff:
  "normalize_doi (normalize_doi x) = normalize_doi x \<longleftrightarrow>
     \<not> ends_with_slash (normalize_doi x) \<and> \<not> version_pattern_found (normalize_doi x)"
proof -
  define y where "y = normalize_doi x"
  have ny: "normalize_doi y = sub_version (rstrip_slash y)"
    using lower_normalized [of x] by (simp add: normalize_doi_def y_def)
  show ?thesis unfolding y_def [symmetric]
  proof
    assume eq: "normalize_doi y = y"
    have "length y \<le> length (rstrip_slash y)"
      using eq ny length_sub_version [of "rstrip_slash y"] by simp
    moreover have "rstrip_slash y = take (length (rstrip_slash y)) y"
      unfolding rstrip_slash_def
      by (metis append_eq_conv_conj rev_append rev_rev_ident takeWhile_dropWhile_id)
    ultimately have r: "rstrip_slash y = y" by simp
    with eq ny have "sub_version y = y" by simp
    with r show "\<not> ends_with_slash y \<and> \<not> version_pattern_found y"
      by (simp add: rstrip_slash_fix sub_version_fix)
  next
    assume "\<not> ends_with_slash y \<and> \<not> version_pattern_found y"
    then have "rstrip_slash y = y" and "sub_version y = y"
      using rstrip_slash_fix [of y] sub_version_fix [of y] by blast+
    then show "normalize_doi y = y"
      using ny by simp
  qed
qed

lemma version_match_iff:
  "version_match s \<longleftrightarrow>
     (\<exists>ds. ds \<noteq> [] \<and> (\<forall>c \<in> set ds. re_digit c)
        \<and> (s = CHR ''v'' # ds \<or> s = CHR ''v'' # ds @ [CHR 0x0A]))"
proof
  assume "version_match s"
  then obtain cs where s: "s = CHR ''v'' # cs" and t: "takeWhile re_digit cs \<noteq> []"
    and d: "dropWhile re_digit cs = [] \<or> dropWhile re_digit cs = [CHR 0x0A]"
    by (auto simp: version_match_def split: list.splits)
  have cs: "cs = takeWhile re_digit cs @ dropWhile re_digit cs" by simp
  have dig: "\<forall>c \<in> set (takeWhile re_digit cs). re_digit c" by (auto dest: set_takeWhileD)
  from d show "\<exists>ds. ds \<noteq> [] \<and> (\<forall>c \<in> set ds. re_digit c)
        \<and> (s = CHR ''v'' # ds \<or> s = CHR ''v'' # ds @ [CHR 0x0A])"
  proof
    assume "dropWhile re_digit cs = []"
    with cs have "cs = takeWhile re_digit cs" by simp
    then have "s = CHR ''v'' # takeWhile re_digit cs" using s by simp
    with t dig show ?thesis by blast
  next
    assume "dropWhile re_digit cs = [CHR 0x0A]"
    with cs have "cs = takeWhile re_digit cs @ [CHR 0x0A]" by simp
    then have "s = CHR ''v'' # takeWhile re_digit cs @ [CHR 0x0A]" using s by simp
    with t dig show ?thesis by blast
  qed
next
  assume "\<exists>ds. ds \<noteq> [] \<and> (\<forall>c \<in> set ds. re_digit c)
        \<and> (s = CHR ''v'' # ds \<or> s = CHR ''v'' # ds @ [CHR 0x0A])"
  then obtain ds where ne: "ds \<noteq> []" and dig: "\<forall>c \<in> set ds. re_digit c"
    and s: "s = CHR ''v'' # ds \<or> s = CHR ''v'' # ds @ [CHR 0x0A]" by blast
  have nl: "\<not> re_digit (CHR 0x0A)" by (simp add: re_digit_def code_def)
  have a: "takeWhile re_digit ds \<noteq> []" using ne dig by (cases ds) auto
  have b: "dropWhile re_digit ds = []" using dig by simp
  have c: "takeWhile re_digit (ds @ [CHR 0x0A]) \<noteq> []" using ne dig by (cases ds) auto
  have d: "dropWhile re_digit (ds @ [CHR 0x0A]) = [CHR 0x0A]"
    using dig nl by (simp add: dropWhile_append2)
  from s show "version_match s"
  proof
    assume "s = CHR ''v'' # ds"
    then show ?thesis using a b by (simp add: version_match_def)
  next
    assume "s = CHR ''v'' # ds @ [CHR 0x0A]"
    then show ?thesis using c d by (simp add: version_match_def)
  qed
qed

lemma version_pattern_found_iff: "version_pattern_found s \<longleftrightarrow> (\<exists>p t. s = p @ t \<and> version_match t)"
proof (induction s)
  case Nil
  then show ?case by (simp add: version_match_def)
next
  case (Cons c cs)
  show ?case
  proof
    assume "version_pattern_found (c # cs)"
    then consider "version_match (c # cs)" | "version_pattern_found cs" by auto
    then show "\<exists>p t. c # cs = p @ t \<and> version_match t"
    proof cases
      case 1
      then have "c # cs = [] @ (c # cs) \<and> version_match (c # cs)" by simp
      then show ?thesis by blast
    next
      case 2
      with Cons obtain p t where "cs = p @ t" "version_match t" by blast
      then have "c # cs = (c # p) @ t \<and> version_match t" by simp
      then show ?thesis by blast
    qed
  next
    assume "\<exists>p t. c # cs = p @ t \<and> version_match t"
    then obtain p t where pt: "c # cs = p @ t" and v: "version_match t" by blast
    show "version_pattern_found (c # cs)"
    proof (cases p)
      case Nil
      with pt have "t = c # cs" by simp
      with v show ?thesis by simp
    next
      case (Cons a p')
      with pt have "cs = p' @ t" by simp
      with v Cons.IH show ?thesis by auto
    qed
  qed
qed

lemma version_pattern_found_ends:
  "version_pattern_found s \<longleftrightarrow>
     ends_with_version s \<or> (\<exists>t. s = t @ [CHR 0x0A] \<and> ends_with_version t)"
proof
  assume "version_pattern_found s"
  then obtain p t where s: "s = p @ t" and vm: "version_match t"
    unfolding version_pattern_found_iff by blast
  from vm obtain ds where ds: "ds \<noteq> []" "\<forall>c \<in> set ds. re_digit c"
    and t: "t = CHR ''v'' # ds \<or> t = CHR ''v'' # ds @ [CHR 0x0A]"
    unfolding version_match_iff by blast
  from t show "ends_with_version s \<or> (\<exists>t. s = t @ [CHR 0x0A] \<and> ends_with_version t)"
  proof
    assume "t = CHR ''v'' # ds"
    with s ds have "ends_with_version s" unfolding ends_with_version_def by blast
    then show ?thesis by simp
  next
    assume "t = CHR ''v'' # ds @ [CHR 0x0A]"
    with s have "s = (p @ CHR ''v'' # ds) @ [CHR 0x0A]" by simp
    moreover have "ends_with_version (p @ CHR ''v'' # ds)"
      unfolding ends_with_version_def using ds by blast
    ultimately show ?thesis by blast
  qed
next
  assume "ends_with_version s \<or> (\<exists>t. s = t @ [CHR 0x0A] \<and> ends_with_version t)"
  then show "version_pattern_found s"
  proof
    assume "ends_with_version s"
    then obtain p ds where "s = p @ CHR ''v'' # ds" "ds \<noteq> []" "\<forall>c \<in> set ds. re_digit c"
      unfolding ends_with_version_def by blast
    then have "s = p @ (CHR ''v'' # ds)" and "version_match (CHR ''v'' # ds)"
      by (auto simp: version_match_iff [of "CHR ''v'' # ds"])
    then show ?thesis unfolding version_pattern_found_iff by blast
  next
    assume "\<exists>t. s = t @ [CHR 0x0A] \<and> ends_with_version t"
    then obtain t p ds where "s = t @ [CHR 0x0A]" "t = p @ CHR ''v'' # ds" "ds \<noteq> []"
      "\<forall>c \<in> set ds. re_digit c"
      unfolding ends_with_version_def by blast
    then have "s = p @ (CHR ''v'' # ds @ [CHR 0x0A])"
      and "version_match (CHR ''v'' # ds @ [CHR 0x0A])"
      by (auto simp: version_match_iff [of "CHR ''v'' # ds @ [CHR 0x0A]"])
    then show ?thesis unfolding version_pattern_found_iff by blast
  qed
qed

text \<open>
  Claim C2, amended: normalising a second time changes nothing exactly when the first
  result does not end in a slash, does not end in a version suffix (a \<open>v\<close> and digits),
  and does not end in a version suffix followed by one final line feed, before which the
  pattern of the version suffix matches as it does at the end.
\<close>

theorem normalize_doi_idempotent_iff:
  "normalize_doi (normalize_doi x) = normalize_doi x \<longleftrightarrow>
     \<not> ends_with_slash (normalize_doi x) \<and> \<not> ends_with_version (normalize_doi x)
     \<and> \<not> (\<exists>t. normalize_doi x = t @ [CHR 0x0A] \<and> ends_with_version t)"
  unfolding normalize_doi_fixed_iff version_pattern_found_ends by blast

lemma normalized_example:
  "normalize_doi ''10.1101/2024.01.01.123456V2/'' = ''10.1101/2024.01.01.123456''"
  by code_simp

theorem normalize_doi_idempotent_iff_witness:
  "\<not> ends_with_slash ''10.1101/2024.01.01.123456''
   \<and> \<not> ends_with_version ''10.1101/2024.01.01.123456''
   \<and> normalize_doi (normalize_doi ''10.1101/2024.01.01.123456V2/'')
     = normalize_doi ''10.1101/2024.01.01.123456V2/''"
proof -
  have "\<not> version_pattern_found ''10.1101/2024.01.01.123456''"
    by (simp add: version_match_def)
  then have v: "\<not> ends_with_version ''10.1101/2024.01.01.123456''"
    and n: "\<not> (\<exists>t. ''10.1101/2024.01.01.123456'' = t @ [CHR 0x0A] \<and> ends_with_version t)"
    unfolding version_pattern_found_ends by blast+
  have s: "\<not> ends_with_slash ''10.1101/2024.01.01.123456''"
    by (simp add: ends_with_slash_def)
  have "normalize_doi (normalize_doi ''10.1101/2024.01.01.123456V2/'')
     = normalize_doi ''10.1101/2024.01.01.123456V2/''"
    using s v n normalize_doi_idempotent_iff [of "''10.1101/2024.01.01.123456V2/''"]
    unfolding normalized_example by blast
  with s v show ?thesis by blast
qed

text \<open>
  The line feed matters: here the first result ends in a line feed after a version suffix,
  and the second normalisation removes that suffix.
\<close>

lemma normalize_doi_before_line_feed:
  "normalize_doi (''10.1101/1v1v2'' @ [CHR 0x0A]) = ''10.1101/1v1'' @ [CHR 0x0A]
   \<and> normalize_doi (''10.1101/1v1'' @ [CHR 0x0A]) = ''10.1101/1'' @ [CHR 0x0A]"
  by (simp add: normalize_doi_def lower_def lower_char_def code_def rstrip_slash_def
      version_match_def re_digit_def)

section \<open>Properties of the merge\<close>

lemma merged_seed_manual: "merged (seed_manual st item) = merged st"
  by (simp add: seed_manual_def Let_def)

lemma merged_merge_auto:
  "merged (merge_auto st item) = merged st \<or> merged (merge_auto st item) = merged st @ [item]"
  by (simp add: merge_auto_def Let_def)

lemma merged_foldl_merge_auto:
  "\<exists>ys. merged (foldl merge_auto st auto) = merged st @ ys \<and> subseq ys auto"
proof (induction auto arbitrary: st)
  case Nil
  then show ?case by simp
next
  case (Cons a auto)
  obtain ys where ys: "merged (foldl merge_auto (merge_auto st a) auto) = merged (merge_auto st a) @ ys"
    and sub: "subseq ys auto"
    using Cons.IH by blast
  from merged_merge_auto [of st a] show ?case
  proof
    assume "merged (merge_auto st a) = merged st"
    with ys sub show ?thesis by (auto intro: exI [of _ ys])
  next
    assume "merged (merge_auto st a) = merged st @ [a]"
    with ys sub show ?thesis by (auto intro: exI [of _ "a # ys"])
  qed
qed

lemma merged_merge_loop:
  "merged (merge_loop manual auto) = manual @ accepted manual auto"
proof -
  obtain ys where "merged (merge_loop manual auto) = manual @ ys"
    using merged_foldl_merge_auto unfolding merge_loop_def
    by (metis (no_types, lifting) merge_state.select_convs(3) merge_state.surjective merge_state.update_convs(3))
  then show ?thesis by (simp add: accepted_def)
qed

lemma subseq_accepted: "subseq (accepted manual auto) auto"
proof -
  obtain ys where "merged (merge_loop manual auto) = manual @ ys" and "subseq ys auto"
    using merged_foldl_merge_auto unfolding merge_loop_def
    by (metis (no_types, lifting) merge_state.select_convs(3) merge_state.surjective merge_state.update_convs(3))
  then show ?thesis by (simp add: accepted_def)
qed

lemma mset_sort_by_date_desc: "mset (sort_by_date_desc xs) = mset xs"
  by (simp add: sort_by_date_desc_def)

lemma mset_merge_news: "mset (merge_news manual auto) = mset manual + mset (accepted manual auto)"
  by (simp add: merge_news_def mset_sort_by_date_desc merged_merge_loop)

text \<open>
  Claim C3: every manual item is in the merged output, as it was and as often as it was
  in the manual list, whatever the auto list is.
\<close>

theorem merge_news_keeps_manual: "mset manual \<subseteq># mset (merge_news manual auto)"
  by (simp add: mset_merge_news)

lemma filter_sort_by_date_desc:
  "filter (\<lambda>x. get_date x = k) (sort_by_date_desc xs) = filter (\<lambda>x. get_date x = k) xs"
  by (simp add: sort_by_date_desc_def rev_filter [symmetric] sort_key_stable)

lemma sorted_sort_by_date_desc: "sorted (rev (map get_date (sort_by_date_desc xs)))"
  by (simp add: sort_by_date_desc_def rev_map)

text \<open>
  Claim C6: the merged output is sorted by date, descending, under string comparison; and
  the items of any one date are in the order they had before the sort: the manual items in
  input order, then the accepted auto items, which follow the order of the auto list.
\<close>

theorem merge_news_sorted_stable:
  "sorted (rev (map get_date (merge_news manual auto)))
   \<and> (\<forall>k. filter (\<lambda>x. get_date x = k) (merge_news manual auto)
          = filter (\<lambda>x. get_date x = k) (manual @ accepted manual auto))
   \<and> subseq (accepted manual auto) auto"
  by (simp add: merge_news_def sorted_sort_by_date_desc filter_sort_by_date_desc
      merged_merge_loop [symmetric] subseq_accepted)




lemma sorted_wrt_insort_key_sym:
  assumes sym: "\<And>a b. R a b \<Longrightarrow> R b a"
  shows "sorted_wrt R (insort_key f x xs) = sorted_wrt R (x # xs)"
proof (induction xs)
  case Nil
  then show ?case by simp
next
  case (Cons y ys)
  then show ?case using sym by (auto simp: set_insort_key)
qed

lemma sorted_wrt_sort_key_sym:
  assumes sym: "\<And>a b. R a b \<Longrightarrow> R b a"
  shows "sorted_wrt R (sort_key f xs) = sorted_wrt R xs"
proof (induction xs)
  case Nil
  then show ?case by simp
next
  case (Cons y ys)
  then show ?case using sorted_wrt_insort_key_sym [of R f y "sort_key f ys", OF sym]
    by simp
qed

lemma sorted_wrt_rev_sym:
  assumes sym: "\<And>a b. R a b \<Longrightarrow> R b a"
  shows "sorted_wrt R (rev xs) = sorted_wrt R xs"
proof -
  have "(\<lambda>a b. R b a) = R" using sym by blast
  then show ?thesis by (simp add: sorted_wrt_rev)
qed

lemma duplicates_sym: "duplicates a b \<Longrightarrow> duplicates b a"
  by (auto simp: duplicates_def same_url_def doi_overlap_def)

lemma duplicate_free_sort: "duplicate_free (sort_by_date_desc xs) = duplicate_free xs"
proof -
  have sym: "\<And>a b. \<not> duplicates a b \<Longrightarrow> \<not> duplicates b a"
    using duplicates_sym by blast
  let ?R = "\<lambda>a b. \<not> duplicates a b"
  have "sorted_wrt ?R (rev (sort_key get_date (rev xs))) = sorted_wrt ?R (sort_key get_date (rev xs))"
    by (rule sorted_wrt_rev_sym [of ?R, OF sym])
  also have "\<dots> = sorted_wrt ?R (rev xs)"
    by (rule sorted_wrt_sort_key_sym [of ?R, OF sym])
  also have "\<dots> = sorted_wrt ?R xs"
    by (rule sorted_wrt_rev_sym [of ?R, OF sym])
  finally show ?thesis
    by (simp only: duplicate_free_def sort_by_date_desc_def)
qed

lemma extract_dois_Nil: "extract_dois [] = {}"
  by (simp add: extract_dois_def)

lemma merge_auto_inv:
  assumes "tracked st" and "duplicate_free (merged st)"
  shows "tracked (merge_auto st item) \<and> duplicate_free (merged (merge_auto st item))"
proof (cases "merged (merge_auto st item) = merged st")
  case True
  then have "merge_auto st item = st"
    by (auto simp: merge_auto_def Let_def split: if_splits)
  with assms show ?thesis by simp
next
  case False
  then have url: "get_url item \<noteq> []"
    and nurl: "rstrip_slash (get_url item) \<notin> existing_urls st"
    and ndoi: "extract_dois (get_url item) \<inter> existing_dois st = {}"
    and st': "merge_auto st item = st\<lparr>merged := merged st @ [item],
               existing_urls := insert (rstrip_slash (get_url item)) (existing_urls st),
               existing_dois := existing_dois st \<union> extract_dois (get_url item),
               new_count := Suc (new_count st)\<rparr>"
    by (auto simp: merge_auto_def Let_def doi_overlap_def split: if_splits)
  have t: "tracked (merge_auto st item)"
    using assms(1) by (auto simp: st' tracked_def)
  have "\<forall>x \<in> set (merged st). \<not> duplicates x item"
    using assms(1) url nurl ndoi
    by (fastforce simp: tracked_def duplicates_def same_url_def doi_overlap_def)
  then have "duplicate_free (merged st @ [item])"
    using assms(2) by (simp add: duplicate_free_def sorted_wrt_append)
  with t show ?thesis by (simp add: st')
qed

lemma foldl_merge_auto_inv:
  "tracked st \<Longrightarrow> duplicate_free (merged st) \<Longrightarrow>
     tracked (foldl merge_auto st auto) \<and> duplicate_free (merged (foldl merge_auto st auto))"
proof (induction auto arbitrary: st)
  case Nil
  then show ?case by simp
next
  case (Cons a auto)
  then show ?case using merge_auto_inv [of st a] by simp
qed

lemma foldl_seed_manual:
  "merged (foldl seed_manual st manual) = merged st
   \<and> existing_urls st \<subseteq> existing_urls (foldl seed_manual st manual)
   \<and> existing_dois st \<subseteq> existing_dois (foldl seed_manual st manual)
   \<and> (\<forall>x \<in> set manual.
        (get_url x \<noteq> [] \<longrightarrow> rstrip_slash (get_url x) \<in> existing_urls (foldl seed_manual st manual))
        \<and> extract_dois (get_url x) \<subseteq> existing_dois (foldl seed_manual st manual))"
proof (induction manual arbitrary: st)
  case Nil
  then show ?case by simp
next
  case (Cons m manual)
  have u: "existing_urls st \<subseteq> existing_urls (seed_manual st m)"
    and d: "existing_dois st \<subseteq> existing_dois (seed_manual st m)"
    and mu: "get_url m \<noteq> [] \<longrightarrow> rstrip_slash (get_url m) \<in> existing_urls (seed_manual st m)"
    and md: "extract_dois (get_url m) \<subseteq> existing_dois (seed_manual st m)"
    by (auto simp: seed_manual_def Let_def extract_dois_Nil)
  from Cons.IH [of "seed_manual st m"] u d mu md show ?case
    by (simp add: merged_seed_manual) blast
qed

lemma tracked_seeded:
  "tracked ((foldl seed_manual st manual)\<lparr>merged := manual\<rparr>)"
  using foldl_seed_manual [of st manual] by (simp add: tracked_def)

text \<open>
  When no two manual items are duplicates of each other, no two items of the merged output
  are.
\<close>

lemma merge_news_duplicate_free:
  "duplicate_free manual \<Longrightarrow> duplicate_free (merge_news manual auto)"
  unfolding merge_news_def merge_loop_def duplicate_free_sort
  using foldl_merge_auto_inv [OF tracked_seeded] by simp





section \<open>Properties of the DOI extractor\<close>

lemmas char_class_defs = code_def re_digit_def re_space_def re_word_def lower_char_def
  doi_char_def nature_char_def arxiv_char_def
lemmas extract_defs = extract_dois_def match_doi_def match_nature_def match_arxiv_def
  doi_candidates_def normalize_doi_def lower_def rstrip_slash_def version_match_def Let_def

lemma dois_doi_org: "extract_dois ''https://doi.org/10.1038/s41586-1'' = {''10.1038/s41586-1''}"
  by (simp add: extract_defs char_class_defs)

lemma dois_nature: "extract_dois ''https://www.nature.com/articles/s41586-1'' = {''10.1038/s41586-1''}"
  by (simp add: extract_defs char_class_defs)

text \<open>
  Claim C4: of a manual item with the URL \<open>https://doi.org/10.1038/s41586-1\<close> and an
  auto item with the URL \<open>https://www.nature.com/articles/s41586-1\<close>, or the other way
  round, the merged output holds exactly one: the manual one.
\<close>

theorem merge_news_doi_equivalent:
  "merge_news [m\<lparr>n_url := Some ''https://doi.org/10.1038/s41586-1''\<rparr>]
              [a\<lparr>n_url := Some ''https://www.nature.com/articles/s41586-1''\<rparr>]
     = [m\<lparr>n_url := Some ''https://doi.org/10.1038/s41586-1''\<rparr>]
   \<and> merge_news [m\<lparr>n_url := Some ''https://www.nature.com/articles/s41586-1''\<rparr>]
                [a\<lparr>n_url := Some ''https://doi.org/10.1038/s41586-1''\<rparr>]
     = [m\<lparr>n_url := Some ''https://www.nature.com/articles/s41586-1''\<rparr>]"
  by (simp add: merge_news_def merge_loop_def seed_manual_def merge_auto_def get_url_def
      sort_by_date_desc_def doi_overlap_def dois_doi_org dois_nature rstrip_slash_def)

lemma literal_at_append: "literal_at p (p @ r) = Some r"
  by (induction p) auto

lemma match_doi_Some:
  assumes "match_doi s = Some (m, rest)"
  shows "s = m @ rest \<and> doi_like m"
proof -
  from assms obtain r r' where r: "literal_at ''10.'' s = Some r"
    and len: "4 \<le> length (takeWhile re_digit r)" "length (takeWhile re_digit r) \<le> 9"
    and d: "dropWhile re_digit r = CHR ''/'' # r'"
    and body: "takeWhile doi_char r' \<noteq> []"
    and m: "m = ''10.'' @ takeWhile re_digit r @ ''/'' @ takeWhile doi_char r'"
    and rest: "rest = dropWhile doi_char r'"
    by (auto simp: match_doi_def Let_def split: option.splits list.splits if_splits)
  have "r = takeWhile re_digit r @ CHR ''/'' # r'"
    using d takeWhile_dropWhile_id [of re_digit r] by simp
  moreover have "r' = takeWhile doi_char r' @ rest"
    using rest by simp
  ultimately have "s = m @ rest"
    using literal_at_Some [OF r] m by (metis append.assoc append_Cons append_Nil)
  moreover have "doi_like m"
    unfolding doi_like_def using m len body
    by (intro exI [of _ "takeWhile re_digit r"] exI [of _ "takeWhile doi_char r'"])
       (auto dest: set_takeWhileD)
  ultimately show ?thesis by simp
qed

lemma doi_like_match:
  assumes "doi_like t"
  shows "match_doi (t @ post) \<noteq> None"
proof -
  from assms obtain ds body where t: "t = ''10.'' @ ds @ ''/'' @ body"
    and len: "4 \<le> length ds" "length ds \<le> 9" and ds: "\<forall>c \<in> set ds. re_digit c"
    and body: "body \<noteq> []" "\<forall>c \<in> set body. doi_char c"
    by (auto simp: doi_like_def)
  have lit: "literal_at ''10.'' (t @ post) = Some (ds @ CHR ''/'' # body @ post)"
    using literal_at_append [of "''10.''" "ds @ CHR ''/'' # body @ post"] by (simp add: t)
  have nd: "\<not> re_digit CHR ''/''" by (simp add: re_digit_def code_def)
  have tw: "takeWhile re_digit (ds @ CHR ''/'' # body @ post) = ds"
    using ds nd by (simp add: takeWhile_append2)
  have dw: "dropWhile re_digit (ds @ CHR ''/'' # body @ post) = CHR ''/'' # body @ post"
    using ds nd by (simp add: dropWhile_append2)
  obtain b bs where b: "body = b # bs" using body(1) by (cases body) auto
  then have "doi_char b" using body(2) by simp
  then have "takeWhile doi_char (body @ post) \<noteq> []" by (simp add: b)
  then show ?thesis
    using len by (simp add: match_doi_def lit tw dw del: literal_at.simps)
qed

lemma finditer_doi_found: "contains_doi_like url \<Longrightarrow> finditer_doi url \<noteq> []"
proof -
  assume "contains_doi_like url"
  then obtain pre t post where url: "url = pre @ t @ post" and t: "doi_like t"
    by (auto simp: contains_doi_like_def)
  have tne: "t \<noteq> []" using t by (auto simp: doi_like_def)
  show ?thesis unfolding url
  proof (induction pre)
    case Nil
    obtain c cs where c: "t @ post = c # cs" using tne by (cases t) auto
    from doi_like_match [OF t, of post] show ?case
      by (auto simp: c split: option.splits)
  next
    case (Cons p pre)
    then show ?case by (auto split: option.splits)
  qed
qed

lemma finditer_doi_sound: "finditer_doi url \<noteq> [] \<Longrightarrow> contains_doi_like url"
proof (induction url rule: finditer_doi.induct)
  case 1
  then show ?case by simp
next
  case (2 c cs)
  show ?case
  proof (cases "match_doi (c # cs)")
    case None
    with 2 have "contains_doi_like cs" by simp
    then obtain pre t post where "cs = pre @ t @ post" "doi_like t"
      by (auto simp: contains_doi_like_def)
    then have "c # cs = (c # pre) @ t @ post \<and> doi_like t" by simp
    then show ?thesis unfolding contains_doi_like_def by blast
  next
    case (Some a)
    obtain m rest where a: "a = (m, rest)" by (cases a)
    from match_doi_Some [of "c # cs" m rest] Some a
    have "c # cs = [] @ m @ rest \<and> doi_like m" by simp
    then show ?thesis unfolding contains_doi_like_def by blast
  qed
qed

lemma finditer_doi_empty_iff: "finditer_doi url = [] \<longleftrightarrow> \<not> contains_doi_like url"
  using finditer_doi_found finditer_doi_sound by blast

text \<open>
  Claim C5, as stated: a URL without a DOI-like piece yields the empty set. It fails for
  a Nature URL, whose DOI is made from the article name.
\<close>

theorem extract_dois_nature_counterexample:
  "\<not> contains_doi_like ''https://www.nature.com/articles/s41586-1''
   \<and> extract_dois ''https://www.nature.com/articles/s41586-1'' \<noteq> {}"
proof -
  have "finditer_doi ''https://www.nature.com/articles/s41586-1'' = []"
    by (simp add: match_doi_def)
  then have "\<not> contains_doi_like ''https://www.nature.com/articles/s41586-1''"
    by (rule finditer_doi_empty_iff [THEN iffD1])
  then show ?thesis
    by (simp only: dois_nature) simp
qed

text \<open>
  Claim C5, amended: the extraction is a total function without an error result, and it
  returns the empty set exactly for the URLs that have no DOI-like piece and match neither
  the Nature pattern nor the arXiv pattern; the empty string is one of them.
\<close>

theorem extract_dois_empty_iff:
  "extract_dois url = {} \<longleftrightarrow>
     \<not> contains_doi_like url \<and> search match_nature url = None \<and> search match_arxiv url = None"
proof (cases "url = []")
  case True
  then show ?thesis
    by (simp add: extract_dois_def finditer_doi_empty_iff [symmetric] match_nature_def match_arxiv_def)
next
  case False
  have "set (concat (map doi_candidates ms)) = {} \<longleftrightarrow> ms = []" for ms
    by (cases ms) (auto simp: doi_candidates_def Let_def)
  with False show ?thesis
    by (auto simp: extract_dois_def finditer_doi_empty_iff [symmetric] split: option.splits)
qed

theorem extract_dois_empty_iff_witness:
  "extract_dois [] = {} \<and> extract_dois ''https://x.org/new'' = {}"
proof -
  have "finditer_doi ''https://x.org/new'' = []"
    by (simp add: match_doi_def)
  then have "\<not> contains_doi_like ''https://x.org/new''"
    by (rule finditer_doi_empty_iff [THEN iffD1])
  moreover have "search match_nature ''https://x.org/new'' = None"
    and "search match_arxiv ''https://x.org/new'' = None"
    by (simp_all add: match_nature_def match_arxiv_def)
  moreover have "\<not> contains_doi_like []"
    using finditer_doi_empty_iff [of "[]"] by simp
  ultimately show ?thesis
    using extract_dois_empty_iff [of "''https://x.org/new''"] extract_dois_empty_iff [of "[]"]
    by (simp add: match_nature_def match_arxiv_def)
qed

lemma dois_manual_example: "extract_dois ''https://doi.org/10.1/abc'' = {}"
  by (simp add: extract_defs char_class_defs)

lemma dois_new_example: "extract_dois ''https://x.org/new'' = {}"
  by (simp add: extract_defs char_class_defs)

lemma merge_news_example: "merge_news [item_manual] [item_same, item_new] = [item_manual, item_new]"
  by (simp add: merge_news_def merge_loop_def seed_manual_def merge_auto_def get_url_def
      sort_by_date_desc_def doi_overlap_def dois_manual_example dois_new_example rstrip_slash_def
      item_manual_def item_same_def item_new_def get_date_def Let_def)



section \<open>Properties of the record mapper\<close>

lemma str_int_2024: "str_int 2024 = ''2024''"
  by code_simp

text \<open>
  Claim C7: a record that lacks a usable title, or both a publication date and a year,
  yields nothing, and every other record yields an item with its date. The mapper breaks
  this for a record whose title is null: it raises where the claim says it returns nothing.
\<close>

theorem paper_to_news_item_null_title:
  "\<not> usable_title paper_null_title \<and> paper_to_news_item paper_null_title = Inl AttributeError"
  by (simp add: usable_title_def paper_to_news_item_def paper_null_title_def)

lemma date_str_None: "date_str paper = None \<longleftrightarrow> \<not> has_date paper \<and> \<not> has_year paper"
  by (auto simp: date_str_def has_date_def has_year_def truthy_str_def truthy_int_def
      split: field.splits option.splits if_splits)

lemma date_str_date:
  "has_date paper \<Longrightarrow> date_str paper = field_value (publicationDate paper)"
  by (auto simp: date_str_def has_date_def truthy_str_def field_value_def split: field.splits)

lemma date_str_year:
  "\<not> has_date paper \<Longrightarrow> has_year paper \<Longrightarrow>
     \<exists>y. year paper = Val y \<and> date_str paper = Some (str_int y @ ''-01-01'')"
  by (auto simp: date_str_def has_date_def has_year_def truthy_str_def truthy_int_def
      split: field.splits)

text \<open>
  The null title is the only record on which the mapper and the claim part. For a record
  whose title is absent or a string, the mapper returns nothing exactly when the title is
  empty after trimming, or the publication date is absent, null or empty and the year is
  absent, null or zero. Otherwise it returns an item whose date is the publication date
  when that is a non-empty string, and else the year followed by \<open>-01-01\<close>.
\<close>

lemma paper_to_news_item_result:
  assumes "title paper \<noteq> Null"
  shows "(paper_to_news_item paper = Inr None
           \<longleftrightarrow> \<not> usable_title paper \<or> (\<not> has_date paper \<and> \<not> has_year paper))
    \<and> (usable_title paper \<and> (has_date paper \<or> has_year paper) \<longrightarrow>
         (\<exists>item. paper_to_news_item paper = Inr (Some item)
            \<and> (has_date paper \<longrightarrow> n_date item = field_value (publicationDate paper))
            \<and> (\<not> has_date paper \<longrightarrow>
                 (\<exists>y. year paper = Val y \<and> n_date item = Some (str_int y @ ''-01-01'')))))"
proof (cases "usable_title paper")
  case False
  with assms have "paper_to_news_item paper = Inr None"
    by (auto simp: paper_to_news_item_def usable_title_def Let_def strip_def split: field.splits)
  with False show ?thesis by simp
next
  case True
  then obtain s where s: "title paper = Val s" "strip s \<noteq> []"
    by (auto simp: usable_title_def split: field.splits)
  show ?thesis
  proof (cases "date_str paper")
    case None
    then have "paper_to_news_item paper = Inr None"
      using s by (simp add: paper_to_news_item_def Let_def)
    with None True show ?thesis by (simp add: date_str_None)
  next
    case (Some d)
    then have r: "paper_to_news_item paper = Inr (Some \<lparr>n_date = Some d,
        n_text = Some (news_text (strip s) paper), n_url = best_url paper, n_link_text = None,
        n_source = Some ''semantic_scholar'', n_paper_id = field_value (paperId paper)\<rparr>)"
      using s by (simp add: paper_to_news_item_def Let_def)
    have some: "has_date paper \<or> has_year paper"
      using Some date_str_None [of paper] by auto
    show ?thesis
      using r True some Some date_str_date [of paper] date_str_year [of paper]
      by auto
  qed
qed

lemma paper_to_news_item_year_only:
  "title paper_year_only \<noteq> Null
   \<and> paper_to_news_item paper_year_only = Inr (Some \<lparr>n_date = Some ''2024-01-01'',
        n_text = Some (''Our paper '' @ [CHR 0x22] @ ''A title'' @ [CHR 0x22] @ '' is available''),
        n_url = None, n_link_text = None, n_source = Some ''semantic_scholar'',
        n_paper_id = Some ''p1''\<rparr>)"
  using paper_to_news_item_result [of paper_year_only]
  by (simp add: paper_year_only_def paper_to_news_item_def date_str_def truthy_str_def
      truthy_int_def str_int_2024 news_text_def best_url_def get_ext_ids_def field_value_def
      strip_def re_space_def code_def Let_def)

section \<open>Properties of the patcher\<close>

lemma find_literal_first:
  "s = a' @ p @ b' \<Longrightarrow> \<exists>a b. find_literal p s = Some (a, b) \<and> length a \<le> length a'"
proof (induction a' arbitrary: s)
  case Nil
  then have "literal_at p s = Some b'" by (simp add: literal_at_append)
  then show ?case by (cases s) auto
next
  case (Cons x xs)
  then have s: "s = x # (xs @ p @ b')" by simp
  from Cons.IH [of "xs @ p @ b'"] obtain a b
    where "find_literal p (xs @ p @ b') = Some (a, b)" "length a \<le> length xs" by auto
  then show ?case unfolding s by (auto split: option.splits)
qed

lemma search_span_found:
  assumes "contains_span content"
  shows "search_span content \<noteq> None"
proof -
  from assms obtain a b c where content: "content = a @ MARKER_START @ b @ MARKER_END @ c"
    by (auto simp: contains_span_def)
  from find_literal_first [OF content] obtain pre r
    where f: "find_literal MARKER_START content = Some (pre, r)" and le: "length pre \<le> length a"
    by auto
  have c2: "content = pre @ MARKER_START @ r" using f by (rule find_literal_Some)
  define k where "k = length a - length pre"
  have "drop (length a + length MARKER_START) content = b @ MARKER_END @ c"
    by (simp add: content)
  moreover have "drop (length a + length MARKER_START) content = drop k r"
    using le by (subst c2) (simp add: k_def)
  ultimately have "r = take k r @ b @ MARKER_END @ c"
    by (metis append_take_drop_id)
  then have "r = (take k r @ b) @ MARKER_END @ c" by simp
  from find_literal_first [OF this] obtain mid post
    where "find_literal MARKER_END r = Some (mid, post)" by auto
  with f show ?thesis by (simp add: search_span_def)
qed

lemma search_span_None_iff: "search_span content = None \<longleftrightarrow> \<not> contains_span content"
proof
  assume "search_span content = None"
  then show "\<not> contains_span content" using search_span_found by blast
next
  assume n: "\<not> contains_span content"
  show "search_span content = None"
  proof (rule ccontr)
    assume "search_span content \<noteq> None"
    then obtain pre m post where "search_span content = Some (pre, m, post)" by auto
    from search_span_Some [OF this] have "contains_span content"
      unfolding contains_span_def by (metis append.assoc)
    with n show False by simp
  qed
qed

text \<open>
  The span that the search finds is the first one and the shortest one: no start marker
  with an end marker after it begins earlier, and from that start marker no end marker
  comes sooner.
\<close>

lemma find_literal_leftmost:
  "find_literal p s = Some (a, b) \<Longrightarrow> s = a' @ p @ b' \<Longrightarrow> length a \<le> length a'"
  using find_literal_first [of s a' p b'] by auto

lemma search_span_first:
  assumes "search_span content = Some (pre, m, post)"
    and "content = a @ MARKER_START @ b @ MARKER_END @ c"
  shows "length pre \<le> length a"
    and "length pre = length a \<Longrightarrow> length m \<le> length (MARKER_START @ b @ MARKER_END)"
proof -
  from assms(1) obtain r mid where s: "find_literal MARKER_START content = Some (pre, r)"
    and e: "find_literal MARKER_END r = Some (mid, post)"
    and m: "m = MARKER_START @ mid @ MARKER_END"
    by (auto simp: search_span_def split: option.splits)
  show "length pre \<le> length a"
    using s assms(2) by (rule find_literal_leftmost)
  assume eq: "length pre = length a"
  have "content = pre @ MARKER_START @ r" using s by (rule find_literal_Some)
  with assms(2) eq have "r = b @ MARKER_END @ c" by simp
  with e have "length mid \<le> length b" by (rule find_literal_leftmost)
  then show "length m \<le> length (MARKER_START @ b @ MARKER_END)" by (simp add: m)
qed

text \<open>
  Claim C9: when the document has no span between the markers, as when a marker is absent,
  the patcher prints the error, writes nothing, returns and signals no change; and when the
  replacement gives the content back as it was, it prints that nothing changed, writes
  nothing and signals no change.
\<close>

theorem update_index_html_no_write:
  "(\<not> contains_span content \<longrightarrow>
      update_index_html news_html content =
        \<lparr>outcome = Returned False,
         printed = [''Error: Could not find NEWS_START/NEWS_END markers in index.html''],
         written = None\<rparr>)
   \<and> (contains_span content \<and> re_sub news_html content = Some content \<longrightarrow>
      update_index_html news_html content =
        \<lparr>outcome = Returned False, printed = [''No changes to index.html''],
         written = None\<rparr>)"
  by (simp add: update_index_html_def search_span_None_iff)

lemma search_doc_without_markers: "search_span doc_without_markers = None"
  by (simp add: search_span_def doc_without_markers_def MARKER_START_def MARKER_END_def)

lemma search_doc_one_span:
  "search_span doc_one_span = Some (''<html>'', fragment_old, ''</html>'')"
  by (simp add: search_span_def doc_one_span_def fragment_old_def MARKER_START_def MARKER_END_def)

lemma search_tail: "search_span ''</html>'' = None"
  by (simp add: search_span_def MARKER_START_def MARKER_END_def)

lemma parse_fragment_old:
  "parse_template fragment_old = Some (map (\<lambda>c. Literal [c]) fragment_old)"
  by (simp add: fragment_old_def)

lemma re_sub_same: "re_sub fragment_old doc_one_span = Some doc_one_span"
  unfolding re_sub_def parse_fragment_old
  by (simp add: replace_spans.simps [of _ doc_one_span] replace_spans.simps [of _ "''</html>''"]
      search_doc_one_span search_tail)
    (simp add: fragment_old_def doc_one_span_def)

theorem update_index_html_no_write_witness:
  "\<not> contains_span doc_without_markers
   \<and> update_index_html fragment_new doc_without_markers =
        \<lparr>outcome = Returned False,
         printed = [''Error: Could not find NEWS_START/NEWS_END markers in index.html''],
         written = None\<rparr>
   \<and> contains_span doc_one_span \<and> re_sub fragment_old doc_one_span = Some doc_one_span
   \<and> update_index_html fragment_old doc_one_span =
        \<lparr>outcome = Returned False, printed = [''No changes to index.html''],
         written = None\<rparr>"
proof -
  have a: "\<not> contains_span doc_without_markers"
    using search_doc_without_markers by (simp add: search_span_None_iff)
  have b: "contains_span doc_one_span"
    using search_doc_one_span search_span_None_iff [of doc_one_span] by auto
  show ?thesis
    using a b re_sub_same
      update_index_html_no_write [of doc_without_markers fragment_new]
      update_index_html_no_write [of doc_one_span fragment_old]
    by simp
qed



lemma parse_template_plain:
  "CHR 0x5C \<notin> set s \<Longrightarrow> parse_template s = Some (map (\<lambda>c. Literal [c]) s)"
  by (induction s) auto

lemma expand_template_append:
  "expand_template (ps @ qs) m = expand_template ps m @ expand_template qs m"
  by (induction ps m rule: expand_template.induct) auto

lemma expand_template_plain: "expand_template (map (\<lambda>c. Literal [c]) s) m = s"
  by (induction s) auto

lemma file_after_update:
  assumes "parse_template news_html = Some ps"
  shows "file_after content (update_index_html news_html content) = replace_spans ps content"
proof (cases "search_span content")
  case None
  then show ?thesis
    by (simp add: update_index_html_def file_after_def replace_spans.simps [of ps content])
next
  case (Some a)
  then show ?thesis
    using assms by (simp add: update_index_html_def file_after_def re_sub_def)
qed

text \<open>
  Claim C8, amended: for a fragment without a backslash and a document with a span, the
  patcher does not raise, and the document becomes the text before the first span, the
  fragment, and the text after the span patched in the same way: every span gives way to
  the fragment. When the text after the first span has no span, it stays as it is.
\<close>

theorem update_index_html_replaces_every_span:
  assumes "CHR 0x5C \<notin> set news_html"
    and "search_span content = Some (pre, m, post)"
  shows "content = pre @ m @ post
    \<and> outcome (update_index_html news_html content) \<noteq> Raised
    \<and> file_after content (update_index_html news_html content)
        = pre @ news_html @ file_after post (update_index_html news_html post)
    \<and> (\<not> contains_span post \<longrightarrow>
         file_after content (update_index_html news_html content) = pre @ news_html @ post)"
proof -
  let ?ps = "map (\<lambda>c. Literal [c]) news_html"
  have p: "parse_template news_html = Some ?ps"
    using assms(1) by (rule parse_template_plain)
  have 1: "content = pre @ m @ post" using search_span_Some [OF assms(2)] by simp
  have 2: "outcome (update_index_html news_html content) \<noteq> Raised"
    using assms(2) p by (simp add: update_index_html_def re_sub_def)
  have 3: "file_after content (update_index_html news_html content)
        = pre @ news_html @ file_after post (update_index_html news_html post)"
    unfolding file_after_update [OF p]
    by (subst replace_spans.simps) (simp add: assms(2) expand_template_plain)
  have 4: "file_after post (update_index_html news_html post) = post"
    if "\<not> contains_span post"
  proof -
    have "search_span post = None" using that search_span_None_iff by blast
    then show ?thesis
      unfolding file_after_update [OF p] by (subst replace_spans.simps) simp
  qed
  from 1 2 3 4 show ?thesis by simp
qed

lemma search_doc_two_spans:
  "search_span doc_two_spans = Some ([], ''<!-- NEWS_START -->1<!-- NEWS_END -->'',
     '',<!-- NEWS_START -->2<!-- NEWS_END -->'')"
  by (simp add: search_span_def doc_two_spans_def MARKER_START_def MARKER_END_def)

lemma search_second_span:
  "search_span '',<!-- NEWS_START -->2<!-- NEWS_END -->''
     = Some ('','', ''<!-- NEWS_START -->2<!-- NEWS_END -->'', [])"
  by (simp add: search_span_def MARKER_START_def MARKER_END_def)

lemma search_empty: "search_span [] = None"
  by (simp add: search_span_def MARKER_START_def MARKER_END_def)

lemma parse_fragment_new:
  "parse_template fragment_new = Some (map (\<lambda>c. Literal [c]) fragment_new)"
  by (simp add: fragment_new_def)

lemma re_sub_two_spans:
  "re_sub fragment_new doc_two_spans = Some (fragment_new @ '','' @ fragment_new)"
  unfolding re_sub_def parse_fragment_new
  by (simp add: replace_spans.simps [of _ doc_two_spans]
      replace_spans.simps [of _ "'',<!-- NEWS_START -->2<!-- NEWS_END -->''"]
      replace_spans.simps [of _ "[]"]
      search_doc_two_spans search_second_span search_empty expand_template_plain)

lemma parse_fragment_delta: "parse_template fragment_delta = None"
  by (simp add: fragment_delta_def escape_def control_escape_def ascii_letter_def re_digit_def
      code_def)

text \<open>
  Claim C8, as stated: only the first span is replaced, by the fragment, and the rest of the
  document stays. It fails for a document with two spans: the second one is replaced as
  well. It also fails for a fragment with a backslash before a letter that is no escape:
  the replacement raises and nothing is replaced.
\<close>

theorem update_index_html_beyond_first_span:
  "search_span doc_two_spans = Some ([], ''<!-- NEWS_START -->1<!-- NEWS_END -->'',
     '',<!-- NEWS_START -->2<!-- NEWS_END -->'')
   \<and> written (update_index_html fragment_new doc_two_spans)
       = Some (fragment_new @ '','' @ fragment_new)
   \<and> fragment_new @ '','' @ fragment_new
       \<noteq> [] @ fragment_new @ '',<!-- NEWS_START -->2<!-- NEWS_END -->''
   \<and> search_span doc_one_span = Some (''<html>'', fragment_old, ''</html>'')
   \<and> update_index_html fragment_delta doc_one_span
       = \<lparr>outcome = Raised, printed = [], written = None\<rparr>"
proof -
  have "fragment_new @ '','' @ fragment_new \<noteq> doc_two_spans"
    by (simp add: fragment_new_def doc_two_spans_def)
  then have "written (update_index_html fragment_new doc_two_spans)
       = Some (fragment_new @ '','' @ fragment_new)"
    by (simp add: update_index_html_def search_doc_two_spans re_sub_two_spans)
  moreover have "fragment_new @ '','' @ fragment_new
       \<noteq> [] @ fragment_new @ '',<!-- NEWS_START -->2<!-- NEWS_END -->''"
    by (simp add: fragment_new_def)
  moreover have "update_index_html fragment_delta doc_one_span
       = \<lparr>outcome = Raised, printed = [], written = None\<rparr>"
    by (simp add: search_doc_one_span update_index_html_def re_sub_def parse_fragment_delta)
  ultimately show ?thesis using search_doc_two_spans search_doc_one_span by simp
qed

theorem update_index_html_replaces_every_span_witness:
  "CHR 0x5C \<notin> set fragment_new
   \<and> search_span doc_one_span = Some (''<html>'', fragment_old, ''</html>'')
   \<and> \<not> contains_span ''</html>''
   \<and> file_after doc_one_span (update_index_html fragment_new doc_one_span)
       = ''<html>'' @ fragment_new @ ''</html>''"
proof -
  have a: "CHR 0x5C \<notin> set fragment_new" by (simp add: fragment_new_def)
  have b: "\<not> contains_span ''</html>''"
    using search_tail by (simp add: search_span_None_iff)
  have "file_after doc_one_span (update_index_html fragment_new doc_one_span)
       = ''<html>'' @ fragment_new @ ''</html>''"
    using b update_index_html_replaces_every_span [OF a search_doc_one_span] by blast
  then show ?thesis
    using a b search_doc_one_span by simp
qed

section \<open>Properties of the renderer\<close>

lemma escape_used:
  assumes "escape s = Some (p, rest)"
  shows "\<exists>used. s = used @ rest \<and> used \<noteq> []
           \<and> (length used \<le> 3 \<or> CHR ''>'' \<notin> set (butlast used))"
proof -
  from assms obtain c cs where s: "s = c # cs" by (cases s) (auto simp: escape_def)
  show ?thesis
  proof (cases "c = CHR ''g''")
    case True
    with assms s obtain r where cs: "cs = CHR ''<'' # r"
      and n: "length (takeWhile (\<lambda>x. x \<noteq> CHR ''>'') r) < length r"
      and rest: "rest = drop (Suc (length (takeWhile (\<lambda>x. x \<noteq> CHR ''>'') r))) r"
      by (auto simp: escape_def Let_def split: list.splits if_splits)
    define name where "name = takeWhile (\<lambda>x. x \<noteq> CHR ''>'') r"
    define used where "used = c # CHR ''<'' # take (Suc (length name)) r"
    have "s = used @ rest" by (simp add: s cs used_def rest name_def)
    moreover have "butlast (take (Suc (length name)) r) = name"
      using n unfolding name_def
      by (simp add: butlast_take takeWhile_eq_take [symmetric])
    then have "butlast used = c # CHR ''<'' # name"
      using n by (auto simp: used_def name_def)
    then have "CHR ''>'' \<notin> set (butlast used)"
      using True by (auto simp: name_def dest: set_takeWhileD)
    ultimately show ?thesis by (auto simp: used_def)
  next
    case False
    show ?thesis
    proof (cases "c = CHR ''0''")
      case True
      define os where "os = takeWhile oct_digit (take 2 cs)"
      have "length os \<le> 2"
        unfolding os_def using length_takeWhile_le [of oct_digit "take 2 cs"] by simp
      moreover have "rest = drop (length os) cs"
        using assms s True by (auto simp: escape_def Let_def os_def)
      then have "s = (c # take (length os) cs) @ rest" by (simp add: s)
      ultimately show ?thesis
        by (intro exI [of _ "c # take (length os) cs"]) auto
    next
      case c0: False
      show ?thesis
      proof (cases "re_digit c")
        case True
        with assms s False c0 obtain d e where "cs = d # e # rest"
          by (auto simp: escape_def split: list.splits if_splits)
        then have "s = [c, d, e] @ rest" by (simp add: s)
        then show ?thesis by (intro exI [of _ "[c, d, e]"]) auto
      next
        case d: False
        with assms s False c0 have "rest = cs"
          by (auto simp: escape_def split: option.splits if_splits)
        then have "s = [c] @ rest" by (simp add: s)
        then show ?thesis by (intro exI [of _ "[c]"]) auto
      qed
    qed
  qed
qed

lemma parse_template_prefix:
  "CHR 0x5C \<notin> set p \<Longrightarrow>
     parse_template (p @ r) = map_option ((@) (map (\<lambda>c. Literal [c]) p)) (parse_template r)"
proof (induction p)
  case Nil
  then show ?case by (cases "parse_template r") simp_all
next
  case (Cons a p)
  then show ?case by (cases "parse_template r") auto
qed

lemma append_eq_split:
  "a @ b = c @ d \<Longrightarrow> length c \<le> length a \<Longrightarrow> \<exists>u. a = c @ u \<and> d = u @ b"
  by (auto simp: append_eq_append_conv2)

lemma parse_template_suffix:
  assumes "CHR 0x5C \<notin> set s1" "CHR 0x5C \<notin> set s2" "CHR ''>'' \<in> set s1" "3 \<le> length s1"
  shows "parse_template (x @ s1 @ s2) = Some ps \<Longrightarrow>
     \<exists>ps'. ps = ps' @ map (\<lambda>c. Literal [c]) s2"
proof (induction x arbitrary: ps rule: length_induct)
  case (1 x)
  show ?case
  proof (cases x)
    case Nil
    have "CHR 0x5C \<notin> set (s1 @ s2)" using assms by simp
    from parse_template_plain [OF this] "1.prems" Nil
    have "ps = map (\<lambda>c. Literal [c]) s1 @ map (\<lambda>c. Literal [c]) s2" by simp
    then show ?thesis by blast
  next
    case (Cons c cs)
    show ?thesis
    proof (cases "c = CHR 0x5C")
      case False
      with "1.prems" Cons obtain qs where qs: "parse_template (cs @ s1 @ s2) = Some qs"
        and ps: "ps = Literal [c] # qs" by auto
      have "length cs < length x" using Cons by simp
      with "1.IH" qs obtain ps' where "qs = ps' @ map (\<lambda>c. Literal [c]) s2" by blast
      then show ?thesis using ps by (intro exI [of _ "Literal [c] # ps'"]) simp
    next
      case True
      with "1.prems" Cons obtain p rest qs where e: "escape (cs @ s1 @ s2) = Some (p, rest)"
        and qs: "parse_template rest = Some qs" and ps: "ps = p # qs"
        by (auto split: option.splits)
      define t where "t = s1 @ s2"
      from escape_used [OF e] obtain used where u: "cs @ t = used @ rest" "used \<noteq> []"
        and b: "length used \<le> 3 \<or> CHR ''>'' \<notin> set (butlast used)"
        unfolding t_def by blast
      show ?thesis
      proof (cases "length used \<le> length cs")
        case True
        from append_eq_split [OF u(1) True] obtain w where w: "cs = used @ w" "rest = w @ t"
          by blast
        have "length w < length x" using Cons w(1) by simp
        with "1.IH" qs w(2) obtain ps' where "qs = ps' @ map (\<lambda>c. Literal [c]) s2"
          unfolding t_def by blast
        then show ?thesis using ps by (intro exI [of _ "p # ps'"]) simp
      next
        case False
        then have "length cs \<le> length used" by simp
        from append_eq_split [OF u(1) [symmetric] this] obtain u'
          where used: "used = cs @ u'" and t: "t = u' @ rest" by blast
        have une: "u' \<noteq> []" using False used by auto
        have le: "length u' \<le> length s1"
        proof (rule ccontr)
          assume "\<not> length u' \<le> length s1"
          then have gt: "length s1 \<le> length u'" "length s1 < length u'" by simp_all
          with assms(4) used have "\<not> length used \<le> 3" by simp
          with b have "CHR ''>'' \<notin> set (butlast used)" by simp
          then have ng: "CHR ''>'' \<notin> set (butlast u')"
            using une by (simp add: used butlast_append)
          from t have "u' @ rest = s1 @ s2" by (simp add: t_def)
          from append_eq_split [OF this gt(1)] obtain w where w: "u' = s1 @ w" by blast
          with gt(2) have "w \<noteq> []" by auto
          then have "butlast u' = s1 @ butlast w" by (simp add: w butlast_append)
          with assms(3) ng show False by simp
        qed
        from t have "s1 @ s2 = u' @ rest" by (simp add: t_def)
        from append_eq_split [OF this le] obtain w where w: "s1 = u' @ w" "rest = w @ s2"
          by blast
        have "CHR 0x5C \<notin> set (w @ s2)" using assms(1,2) w(1) by auto
        from parse_template_plain [OF this] qs w(2)
        have "qs = map (\<lambda>c. Literal [c]) w @ map (\<lambda>c. Literal [c]) s2" by simp
        then show ?thesis using ps
          by (intro exI [of _ "p # map (\<lambda>c. Literal [c]) w"]) simp
      qed
    qed
  qed
qed


lemma join_lines_Cons: "ls \<noteq> [] \<Longrightarrow> join_lines (l # ls) = l @ [CHR 0x0A] @ join_lines ls"
  by (cases ls) simp_all

lemma join_lines_snoc: "ls \<noteq> [] \<Longrightarrow> join_lines (ls @ [l]) = join_lines ls @ [CHR 0x0A] @ l"
  by (induction ls rule: join_lines.induct) simp_all

lemma render_news_html_shape:
  "\<exists>body. render_news_html items
     = start_line @ ([CHR 0x0A] @ body @ [CHR 0x0A]) @ (''                </div>'' @ [CHR 0x0A])
       @ end_line"
proof -
  define M where "M = ''                <div class=\"news\">'' # ''                    <h2>News</h2>''
     # ''                    <ul>'' # map render_item items @ [''                    </ul>'']"
  have r: "render_news_html items = join_lines (''                <!-- NEWS_START -->''
      # ((M @ [''                </div>'']) @ [''                <!-- NEWS_END -->'']))"
    by (simp add: render_news_html_def M_def)
  have ne: "M \<noteq> []" by (simp add: M_def)
  have 1: "join_lines (l # ((M @ [k]) @ [e])) = l @ [CHR 0x0A] @ join_lines ((M @ [k]) @ [e])"
    for l k e by (rule join_lines_Cons) simp
  have 2: "join_lines ((M @ [k]) @ [e]) = join_lines (M @ [k]) @ [CHR 0x0A] @ e" for k e
    by (rule join_lines_snoc) simp
  have 3: "join_lines (M @ [k]) = join_lines M @ [CHR 0x0A] @ k" for k
    using ne by (rule join_lines_snoc)
  have "render_news_html items = ''                <!-- NEWS_START -->'' @ [CHR 0x0A]
      @ (join_lines M @ [CHR 0x0A] @ ''                </div>'') @ [CHR 0x0A]
      @ ''                <!-- NEWS_END -->''"
    unfolding r by (simp only: 1 2 3)
  then show ?thesis
    by (intro exI [of _ "join_lines M"])
      (simp add: start_line_def end_line_def MARKER_START_def MARKER_END_def
        numeral_eq_Suc)
qed


lemma takeWhile_until: "c \<notin> set l \<Longrightarrow> takeWhile (\<lambda>x. x \<noteq> c) (l @ c # r) = l"
  by (induction l) auto

lemma first_line_append:
  "CHR 0x0A \<notin> set l \<Longrightarrow> first_line (l @ CHR 0x0A # r) = l"
  by (simp add: first_line_def takeWhile_until)

lemma last_line_append:
  "CHR 0x0A \<notin> set l \<Longrightarrow> last_line (a @ CHR 0x0A # l) = l"
  using takeWhile_until [of "CHR 0x0A" "rev l" "rev a"] by (simp add: last_line_def)

lemma no_newline_in_marker_lines: "CHR 0x0A \<notin> set start_line" "CHR 0x0A \<notin> set end_line"
  by (simp_all add: start_line_def end_line_def MARKER_START_def MARKER_END_def)

lemma no_backslash_in_marker_lines: "CHR 0x5C \<notin> set start_line" "CHR 0x5C \<notin> set end_line"
  by (simp_all add: start_line_def end_line_def MARKER_START_def MARKER_END_def)

lemma contains_span_between:
  "contains_span (a @ start_line @ b @ end_line @ c)"
proof -
  have "a @ start_line @ b @ end_line @ c
      = (a @ replicate 16 CHR '' '') @ MARKER_START @ (b @ replicate 16 CHR '' '')
        @ MARKER_END @ c"
    by (simp add: start_line_def end_line_def)
  then show ?thesis unfolding contains_span_def by blast
qed

lemma expand_rendered:
  assumes "parse_template (render_news_html items) = Some ps"
  shows "\<exists>b. expand_template ps m = start_line @ b @ end_line"
proof -
  obtain body where r: "render_news_html items
     = start_line @ ([CHR 0x0A] @ body @ [CHR 0x0A]) @ (''                </div>'' @ [CHR 0x0A])
       @ end_line"
    using render_news_html_shape by blast
  let ?x = "[CHR 0x0A] @ body @ [CHR 0x0A]"
  let ?s1 = "''                </div>'' @ [CHR 0x0A]"
  from assms obtain ps1 where p1: "parse_template (?x @ ?s1 @ end_line) = Some ps1"
    and ps: "ps = map (\<lambda>c. Literal [c]) start_line @ ps1"
    unfolding r parse_template_prefix [OF no_backslash_in_marker_lines(1)] by auto
  have "\<exists>ps'. ps1 = ps' @ map (\<lambda>c. Literal [c]) end_line"
    by (rule parse_template_suffix [OF _ no_backslash_in_marker_lines(2) _ _ p1]) simp_all
  then obtain ps' where "ps1 = ps' @ map (\<lambda>c. Literal [c]) end_line" by blast
  with ps have "expand_template ps m = start_line @ expand_template ps' m @ end_line"
    by (simp add: expand_template_append expand_template_plain)
  then show ?thesis by blast
qed

text \<open>
  Claim C10: for every item list, the first line of the rendered fragment is the start
  marker after its indentation and the last line is the end marker after its indentation;
  the fragment holds a span, and so does every document that the patcher writes with it.
\<close>

theorem render_news_html_markers:
  "first_line (render_news_html items) = replicate 16 CHR '' '' @ MARKER_START
   \<and> last_line (render_news_html items) = replicate 16 CHR '' '' @ MARKER_END
   \<and> contains_span (render_news_html items)
   \<and> (\<forall>content new.
        written (update_index_html (render_news_html items) content) = Some new
        \<longrightarrow> contains_span new)"
proof -
  obtain body where r: "render_news_html items
     = start_line @ ([CHR 0x0A] @ body @ [CHR 0x0A]) @ (''                </div>'' @ [CHR 0x0A])
       @ end_line"
    using render_news_html_shape by blast
  have e1: "render_news_html items
      = start_line @ CHR 0x0A # (body @ [CHR 0x0A] @ ''                </div>'' @ [CHR 0x0A]
          @ end_line)"
    unfolding r by simp
  have 1: "first_line (render_news_html items) = start_line"
    by (subst e1) (rule first_line_append [OF no_newline_in_marker_lines(1)])
  have e2: "render_news_html items
      = (start_line @ [CHR 0x0A] @ body @ [CHR 0x0A] @ ''                </div>'')
        @ CHR 0x0A # end_line"
    unfolding r by simp
  have 2: "last_line (render_news_html items) = end_line"
    by (subst e2) (rule last_line_append [OF no_newline_in_marker_lines(2)])
  have e3: "render_news_html items
      = [] @ start_line @ ([CHR 0x0A] @ body @ [CHR 0x0A] @ ''                </div>''
          @ [CHR 0x0A]) @ end_line @ []"
    unfolding r by simp
  have 3: "contains_span (render_news_html items)"
    by (subst e3) (rule contains_span_between)
  have 4: "contains_span new"
    if w: "written (update_index_html (render_news_html items) content) = Some new"
    for content new
  proof -
    from w obtain pre m post where sp: "search_span content = Some (pre, m, post)"
      by (cases "search_span content") (auto simp: update_index_html_def)
    with w obtain ps where ps: "parse_template (render_news_html items) = Some ps"
      and new: "new = replace_spans ps content"
      by (auto simp: update_index_html_def re_sub_def split: option.splits if_splits)
    from expand_rendered [OF ps] obtain b where "expand_template ps m = start_line @ b @ end_line"
      by blast
    then have "new = pre @ start_line @ b @ end_line @ replace_spans ps post"
      unfolding new by (subst replace_spans.simps) (simp add: sp)
    then show ?thesis using contains_span_between by simp
  qed
  from 1 2 3 4 show ?thesis by (simp add: start_line_def end_line_def)
qed

theorem render_news_html_markers_witness:
  "written (update_index_html (render_news_html [item_manual]) doc_one_span)
     = Some (''<html>'' @ render_news_html [item_manual] @ ''</html>'')
   \<and> contains_span (''<html>'' @ render_news_html [item_manual] @ ''</html>'')"
proof -
  have nb: "CHR 0x5C \<notin> set (render_news_html [item_manual])"
    by (simp add: render_news_html_def render_item_def item_manual_def get_date_def
        get_text_def get_url_def get_link_text_def)
  have "replace_spans (map (\<lambda>c. Literal [c]) (render_news_html [item_manual])) doc_one_span
      = ''<html>'' @ render_news_html [item_manual] @ ''</html>''"
    by (simp add: replace_spans.simps [of _ doc_one_span]
        replace_spans.simps [of _ "''</html>''"] search_doc_one_span search_tail
        expand_template_plain del: append.simps)
  moreover have "''<html>'' @ render_news_html [item_manual] @ ''</html>'' \<noteq> doc_one_span"
    by (simp add: render_news_html_def doc_one_span_def)
  ultimately have w: "written (update_index_html (render_news_html [item_manual]) doc_one_span)
     = Some (''<html>'' @ render_news_html [item_manual] @ ''</html>'')"
    using parse_template_plain [OF nb]
    by (simp add: update_index_html_def re_sub_def search_doc_one_span)
  with render_news_html_markers [of "[item_manual]"] show ?thesis by blast
qed

end
